theory Spec2Isabelle
  imports Complex_Main "HOL-Library.AList"
begin

section \<open>Python strings\<close>

text \<open>
  A Python \<open>str\<close> is a sequence of code points. The model writes it as a \<open>string\<close> whose
  characters stand for the code points below 256. In that range the decimal digits
  (\<open>\d\<close> of module \<open>re\<close>) are \<open>0\<close> to \<open>9\<close>, and the whitespace characters
  (\<open>str.isspace\<close>, \<open>\s\<close> of module \<open>re\<close>, the characters removed by \<open>str.strip\<close>)
  are the twelve listed in \<open>py_isspace\<close>.
\<close>

definition py_isspace :: "char \<Rightarrow> bool" where
  "py_isspace c \<longleftrightarrow>
     c \<in> set [CHR 0x09, CHR 0x0A, CHR 0x0B, CHR 0x0C, CHR 0x0D,
              CHR 0x1C, CHR 0x1D, CHR 0x1E, CHR 0x1F, CHR 0x20, CHR 0x85, CHR 0xA0]"

definition py_isdigit :: "char \<Rightarrow> bool" where
  "py_isdigit c \<longleftrightarrow> c \<in> set ''0123456789''"

text \<open>\<open>s.strip()\<close>: leading and trailing whitespace removed.\<close>

definition py_strip :: "string \<Rightarrow> string" where
  "py_strip s = rev (dropWhile py_isspace (rev (dropWhile py_isspace s)))"

text \<open>\<open>s.startswith(p)\<close> and \<open>s.endswith(p)\<close>.\<close>

definition startswith :: "string \<Rightarrow> string \<Rightarrow> bool" where
  "startswith s p \<longleftrightarrow> take (length p) s = p"

definition endswith :: "string \<Rightarrow> string \<Rightarrow> bool" where
  "endswith s p \<longleftrightarrow> length p \<le> length s \<and> drop (length s - length p) s = p"

text \<open>
  \<open>re.match(r'^\d+\.\s*$', text)\<close> as a truth value: the text is one or more digits, a
  period, and then whitespace only up to its end. The digits are matched greedily and the
  period is no digit, so the run of digits is the longest one; \<open>\s*\<close> may take every
  remaining character, so \<open>$\<close> adds nothing beyond "whitespace only".
\<close>

definition numbered_item :: "string \<Rightarrow> bool" where
  "numbered_item t \<longleftrightarrow>
     takeWhile py_isdigit t \<noteq> [] \<and>
     (case dropWhile py_isdigit t of
        [] \<Rightarrow> False
      | c # ws \<Rightarrow> c = CHR ''.'' \<and> list_all py_isspace ws)"

section \<open>The element sequence\<close>

text \<open>
  One dictionary of \<open>structured_text\<close> (lines 93 to 100 of \<open>pdf_to.py\<close>). The field for
  key \<open>k\<close> is \<open>elem_k\<close>. Font sizes are Python floats that the builder only compares,
  which is exact; they are modelled as reals (no NaN).
\<close>

record element =
  elem_text :: string
  elem_font :: string
  elem_font_size :: real
  elem_is_bold :: bool
  elem_is_underlined :: bool
  elem_page :: nat

section \<open>The directed graph\<close>

text \<open>
  The attribute dictionary of a node of the \<open>networkx.DiGraph\<close>. A key that is absent
  is \<open>None\<close>: \<open>add_edge\<close> creates a missing endpoint with no attribute at all, and
  reading a missing key with \<open>attrs[k]\<close> raises \<open>KeyError\<close>.
\<close>

datatype error = KeyError

record node_attrs =
  level :: "nat option"
  content :: "string option"
  font_size :: "real option"
  is_underlined :: "bool option"

definition no_attrs :: node_attrs where
  "no_attrs = \<lparr>level = None, content = None, font_size = None, is_underlined = None\<rparr>"

text \<open>\<open>old.update(new)\<close> on attribute dictionaries: the keys of \<open>new\<close> win.\<close>

definition update_attrs :: "node_attrs \<Rightarrow> node_attrs \<Rightarrow> node_attrs" where
  "update_attrs old new =
     \<lparr>level = (case level new of None \<Rightarrow> level old | Some v \<Rightarrow> Some v),
      content = (case content new of None \<Rightarrow> content old | Some v \<Rightarrow> Some v),
      font_size = (case font_size new of None \<Rightarrow> font_size old | Some v \<Rightarrow> Some v),
      is_underlined = (case is_underlined new of None \<Rightarrow> is_underlined old | Some v \<Rightarrow> Some v)\<rparr>"

text \<open>
  The graph: its nodes in insertion order, each with its attribute dictionary, and its
  edges (a \<open>DiGraph\<close> keeps at most one edge per ordered pair).
\<close>

record digraph =
  nodes :: "(string \<times> node_attrs) list"
  edges :: "(string \<times> string) list"

text \<open>\<open>nx.DiGraph()\<close>, the graph of a new \<open>PDFKnowledgeGraphV2\<close> (line 11).\<close>

definition DiGraph :: digraph where
  "DiGraph = \<lparr>nodes = [], edges = []\<rparr>"

text \<open>
  \<open>G.add_node(n, **attr)\<close>: a new node gets \<open>attr\<close>; an existing node keeps its place and
  has its attribute dictionary updated with \<open>attr\<close>.
\<close>

definition add_node :: "digraph \<Rightarrow> string \<Rightarrow> node_attrs \<Rightarrow> digraph" where
  "add_node g n attr =
     g\<lparr>nodes :=
         AList.update n
           (update_attrs (case map_of (nodes g) n of None \<Rightarrow> no_attrs | Some a \<Rightarrow> a) attr)
           (nodes g)\<rparr>"

text \<open>
  \<open>G.add_edge(u, v)\<close>: endpoints that are no nodes yet are created without attributes;
  the edge is added unless it is there already.
\<close>

definition ensure_node :: "string \<Rightarrow> (string \<times> node_attrs) list \<Rightarrow> (string \<times> node_attrs) list" where
  "ensure_node n ns = (case map_of ns n of None \<Rightarrow> ns @ [(n, no_attrs)] | Some a \<Rightarrow> ns)"

definition add_edge :: "digraph \<Rightarrow> string \<Rightarrow> string \<Rightarrow> digraph" where
  "add_edge g u v =
     g\<lparr>nodes := ensure_node v (ensure_node u (nodes g)),
       edges := (if (u, v) \<in> set (edges g) then edges g else edges g @ [(u, v)])\<rparr>"

text \<open>The number of edges that end in \<open>v\<close>.\<close>

definition in_degree :: "digraph \<Rightarrow> string \<Rightarrow> nat" where
  "in_degree g v = length (filter (\<lambda>e. snd e = v) (edges g))"

section \<open>The hierarchy builder\<close>

text \<open>
  The variables of \<open>build_knowledge_graph\<close> that live across iterations of its loop,
  with \<open>self.graph\<close>.
\<close>

record builder =
  graph :: digraph
  current_node :: string
  node_stack :: "string list"
  first_bold_skipped :: bool
  nodes_added :: nat

text \<open>Lines 130 to 138: the font size of the first non-bold element, else 8.0.\<close>

fun regular_font_size :: "element list \<Rightarrow> real" where
  "regular_font_size [] = 8"
| "regular_font_size (elem # rest) =
     (if \<not> elem_is_bold elem then elem_font_size elem else regular_font_size rest)"

text \<open>
  Lines 177 to 203, the \<open>while\<close> loop that pops the stack. The result is the stack when
  the loop is left. Each round reads the top's attributes first (a node or a font size
  that is missing raises \<open>KeyError\<close>), then runs the four \<open>if\<close> statements of the body in
  their order: \<open>equal_sizes\<close> is the body of the second one, with \<open>None\<close> for \<open>break\<close>.
\<close>

definition equal_sizes :: "bool \<Rightarrow> bool \<Rightarrow> string list \<Rightarrow> string list option" where
  "equal_sizes candidate_underlined new_underlined stack =
     (if candidate_underlined = new_underlined then Some (butlast stack)
      else if candidate_underlined \<and> \<not> new_underlined then None
      else if \<not> candidate_underlined \<and> new_underlined then Some (butlast stack)
      else None)"

function pop_stack :: "string \<Rightarrow> digraph \<Rightarrow> real \<Rightarrow> bool \<Rightarrow> string list \<Rightarrow> error + string list" where
  "pop_stack root_node g fs ul stack =
     (if length stack > 0 then
        (case map_of (nodes g) (last stack) of
           None \<Rightarrow> Inl KeyError
         | Some candidate_attrs \<Rightarrow>
            (case font_size candidate_attrs of
               None \<Rightarrow> Inl KeyError
             | Some candidate_fs \<Rightarrow>
                 if last stack = root_node \<or> candidate_fs > fs then Inr stack
                 else
                   (case (if candidate_fs = fs
                          then equal_sizes
                                 (case is_underlined candidate_attrs of None \<Rightarrow> False | Some b \<Rightarrow> b)
                                 ul stack
                          else Some stack) of
                      None \<Rightarrow> Inr stack
                    | Some stack1 \<Rightarrow>
                        (if candidate_fs < fs
                         then (if butlast stack1 = [] then Inr (butlast stack1)
                               else pop_stack root_node g fs ul (butlast stack1))
                         else (if stack1 = [] then Inr stack1
                               else pop_stack root_node g fs ul stack1)))))
      else Inr stack)"
  by pat_completeness auto
termination
  by (relation "measure (\<lambda>(root_node, g, fs, ul, stack). length stack)")
     (auto simp: equal_sizes_def split: if_splits)

text \<open>Lines 177 to 208: the parent of the new heading and the stack it is pushed on.\<close>

definition select_parent ::
  "string \<Rightarrow> digraph \<Rightarrow> real \<Rightarrow> bool \<Rightarrow> string list \<Rightarrow> error + (string \<times> string list)" where
  "select_parent root_node g fs ul stack =
     (case pop_stack root_node g fs ul stack of
        Inl e \<Rightarrow> Inl e
      | Inr stack' \<Rightarrow>
          if stack' = [] then Inr (root_node, stack' @ [root_node])
          else Inr (last stack', stack'))"

text \<open>Lines 176 to 219: a heading becomes a node under the selected parent.\<close>

definition insert_heading :: "string \<Rightarrow> builder \<Rightarrow> string \<Rightarrow> real \<Rightarrow> bool \<Rightarrow> error + builder" where
  "insert_heading root_node st txt fs ul =
     (case select_parent root_node (graph st) fs ul (node_stack st) of
        Inl e \<Rightarrow> Inl e
      | Inr (parent_node, stack) \<Rightarrow>
          Inr (st\<lparr>graph :=
                    add_edge
                      (add_node (graph st) txt
                         \<lparr>level = Some (length stack), content = Some '''',
                          font_size = Some fs, is_underlined = Some ul\<rparr>)
                      parent_node txt,
                  current_node := txt,
                  node_stack := stack @ [txt],
                  nodes_added := nodes_added st + 1\<rparr>))"

text \<open>
  Lines 224 to 225 and 229 to 230: the text is appended, after a space, to the content of
  the current node when that is a node of the graph.
\<close>

definition add_content :: "builder \<Rightarrow> string \<Rightarrow> error + builder" where
  "add_content st txt =
     (case map_of (nodes (graph st)) (current_node st) of
        None \<Rightarrow> Inr st
      | Some attrs \<Rightarrow>
          (case content attrs of
             None \<Rightarrow> Inl KeyError
           | Some c \<Rightarrow>
               Inr (st\<lparr>graph := (graph st)\<lparr>nodes :=
                          AList.update (current_node st)
                            (attrs\<lparr>content := Some (c @ '' '' @ txt)\<rparr>)
                            (nodes (graph st))\<rparr>\<rparr>)))"

text \<open>Lines 153 to 157 and line 174.\<close>

definition next_starts_with_colon :: "element list \<Rightarrow> nat \<Rightarrow> bool" where
  "next_starts_with_colon elements i =
     (if i < length elements - 1 \<and> \<not> elem_is_bold (elements ! (i + 1))
      then startswith (elem_text (elements ! (i + 1))) '':''
      else False)"

definition is_heading :: "real \<Rightarrow> element list \<Rightarrow> nat \<Rightarrow> element \<Rightarrow> bool" where
  "is_heading regular elements i elem \<longleftrightarrow>
     elem_font_size elem > regular \<or> endswith (elem_text elem) '':''
     \<or> next_starts_with_colon elements i"

text \<open>Lines 147 to 230: one iteration of the loop over the elements.\<close>

definition loop_body :: "string \<Rightarrow> real \<Rightarrow> element list \<Rightarrow> nat \<Rightarrow> element \<Rightarrow> builder \<Rightarrow> error + builder" where
  "loop_body root_node regular elements i elem st =
     (if elem_is_bold elem \<and> \<not> first_bold_skipped st then Inr (st\<lparr>first_bold_skipped := True\<rparr>)
      else if numbered_item (elem_text elem) then Inr st
      else if elem_is_bold elem then
        (if is_heading regular elements i elem
         then insert_heading root_node st (elem_text elem) (elem_font_size elem) (elem_is_underlined elem)
         else add_content st (elem_text elem))
      else add_content st (elem_text elem))"

text \<open>\<open>for i, elem in enumerate(elements)\<close>, over the pairs that are still to come.\<close>

fun for_loop :: "string \<Rightarrow> real \<Rightarrow> element list \<Rightarrow> (nat \<times> element) list \<Rightarrow> builder \<Rightarrow> error + builder" where
  "for_loop root_node regular elements [] st = Inr st"
| "for_loop root_node regular elements ((i, elem) # rest) st =
     (case loop_body root_node regular elements i elem st of
        Inl e \<Rightarrow> Inl e
      | Inr st' \<Rightarrow> for_loop root_node regular elements rest st')"

text \<open>Lines 233 to 236: the content of every node that has one is trimmed.\<close>

definition clean_content :: "node_attrs \<Rightarrow> node_attrs" where
  "clean_content attrs =
     (case content attrs of
        None \<Rightarrow> attrs
      | Some c \<Rightarrow>
          attrs\<lparr>content := Some (if py_strip c \<noteq> [] then py_strip c else ''(No description)'')\<rparr>)"

definition cleanup :: "digraph \<Rightarrow> digraph" where
  "cleanup g = g\<lparr>nodes := map (\<lambda>(n, attrs). (n, clean_content attrs)) (nodes g)\<rparr>"

text \<open>
  Lines 121 to 127: the state in which the loop starts. \<open>root_node\<close> is the value of
  \<open>os.path.splitext(os.path.basename(pdf_name))[0]\<close>, a library function of the document's
  name: the model takes it in place of \<open>pdf_name\<close>.
\<close>

definition initial_builder :: "digraph \<Rightarrow> string \<Rightarrow> builder" where
  "initial_builder g root_node =
     \<lparr>graph = add_node g root_node
                 \<lparr>level = Some 0, content = Some '''', font_size = Some 100,
                  is_underlined = Some False\<rparr>,
      current_node = root_node,
      node_stack = [root_node],
      first_bold_skipped = False,
      nodes_added = 0\<rparr>"

text \<open>Lines 146 to 230: the loop, from the initial state.\<close>

definition run_loop :: "digraph \<Rightarrow> element list \<Rightarrow> string \<Rightarrow> error + builder" where
  "run_loop g elements root_node =
     for_loop root_node (regular_font_size elements) elements (enumerate 0 elements)
       (initial_builder g root_node)"

text \<open>
  \<open>build_knowledge_graph\<close>, on \<open>self.graph = g\<close>: the graph it leaves, or the exception it
  raises again.
\<close>

definition build_knowledge_graph :: "digraph \<Rightarrow> element list \<Rightarrow> string \<Rightarrow> error + digraph" where
  "build_knowledge_graph g elements root_node =
     (case run_loop g elements root_node of
        Inl e \<Rightarrow> Inl e
      | Inr st \<Rightarrow> Inr (cleanup (graph st)))"

section \<open>Observations of a run\<close>

text \<open>The identifiers of the nodes, \<open>G.nodes[n]\<close>, and two of its attributes.\<close>

definition node_ids :: "digraph \<Rightarrow> string list" where
  "node_ids g = map fst (nodes g)"

definition attrs_of :: "digraph \<Rightarrow> string \<Rightarrow> node_attrs option" where
  "attrs_of g n = map_of (nodes g) n"

definition level_of :: "digraph \<Rightarrow> string \<Rightarrow> nat option" where
  "level_of g n = (case attrs_of g n of None \<Rightarrow> None | Some attrs \<Rightarrow> level attrs)"

definition content_of :: "digraph \<Rightarrow> string \<Rightarrow> string option" where
  "content_of g n = (case attrs_of g n of None \<Rightarrow> None | Some attrs \<Rightarrow> content attrs)"

text \<open>
  The font size and the underline flag stored for a node, as lines 180 and 181 read them
  (\<open>attrs.get("is_underlined", False)\<close>); 0 stands for a font size that is not stored.
\<close>

definition font_size_of :: "digraph \<Rightarrow> string \<Rightarrow> real" where
  "font_size_of g n =
     (case attrs_of g n of
        None \<Rightarrow> 0
      | Some attrs \<Rightarrow> (case font_size attrs of None \<Rightarrow> 0 | Some fs \<Rightarrow> fs))"

definition underlined_of :: "digraph \<Rightarrow> string \<Rightarrow> bool" where
  "underlined_of g n =
     (case attrs_of g n of
        None \<Rightarrow> False
      | Some attrs \<Rightarrow> (case is_underlined attrs of None \<Rightarrow> False | Some b \<Rightarrow> b))"

text \<open>The state of the builder when iteration \<open>i\<close> of the loop begins.\<close>

definition state_before :: "digraph \<Rightarrow> element list \<Rightarrow> string \<Rightarrow> nat \<Rightarrow> error + builder" where
  "state_before g elements root_node i =
     for_loop root_node (regular_font_size elements) elements (take i (enumerate 0 elements))
       (initial_builder g root_node)"

text \<open>
  Element \<open>i\<close> reaches line 175 with \<open>is_heading\<close> true: it is bold, a bold element came
  before it, it is no standalone number, and line 174 holds.
\<close>

definition heading_at :: "element list \<Rightarrow> nat \<Rightarrow> bool" where
  "heading_at elements i \<longleftrightarrow>
     i < length elements \<and> elem_is_bold (elements ! i)
     \<and> (\<exists>e \<in> set (take i elements). elem_is_bold e)
     \<and> \<not> numbered_item (elem_text (elements ! i))
     \<and> is_heading (regular_font_size elements) elements i (elements ! i)"

text \<open>The texts of the headings among the first \<open>i\<close> elements, and of all of them.\<close>

definition headings_upto :: "element list \<Rightarrow> nat \<Rightarrow> string list" where
  "headings_upto elements i =
     map (\<lambda>j. elem_text (elements ! j)) (filter (heading_at elements) [0..<i])"

definition headings :: "element list \<Rightarrow> string list" where
  "headings elements = headings_upto elements (length elements)"

text \<open>
  The depth of the stack at line 214 of iteration \<open>i\<close>, when element \<open>i\<close> is inserted:
  the length of the stack that the parent selection leaves, before the new node is pushed.
\<close>

definition insertion_depth :: "digraph \<Rightarrow> element list \<Rightarrow> string \<Rightarrow> nat \<Rightarrow> nat option" where
  "insertion_depth g elements root_node i =
     (case state_before g elements root_node i of
        Inl e \<Rightarrow> None
      | Inr st \<Rightarrow>
          (case select_parent root_node (graph st) (elem_font_size (elements ! i))
                  (elem_is_underlined (elements ! i)) (node_stack st) of
             Inl e \<Rightarrow> None
           | Inr (parent_node, stack) \<Rightarrow> Some (length stack)))"

section \<open>The parent selection as the specification words it\<close>

text \<open>
  The walk of section 4.2, step 5, over a stack whose top is its last entry; \<open>fs_of\<close> and
  \<open>ul_of\<close> give the stored font size and underline flag of a node. Stop at the root or at a
  strictly larger font size; at equal sizes pop when the flags agree, stop when the top is
  underlined and the new heading is not, pop when the top is not underlined and the new
  heading is; pop a strictly smaller top; an emptied stack is reset to the root alone. The
  parent is the top of the stack that is returned.
\<close>

function spec_parent_stack ::
  "string \<Rightarrow> (string \<Rightarrow> real) \<Rightarrow> (string \<Rightarrow> bool) \<Rightarrow> real \<Rightarrow> bool \<Rightarrow> string list \<Rightarrow> string list" where
  "spec_parent_stack root_node fs_of ul_of fs ul stack =
     (if stack = [] then [root_node]
      else if last stack = root_node \<or> fs_of (last stack) > fs then stack
      else if fs_of (last stack) = fs then
        (if ul_of (last stack) = ul then spec_parent_stack root_node fs_of ul_of fs ul (butlast stack)
         else if ul_of (last stack) \<and> \<not> ul then stack
         else spec_parent_stack root_node fs_of ul_of fs ul (butlast stack))
      else spec_parent_stack root_node fs_of ul_of fs ul (butlast stack))"
  by pat_completeness auto
termination
  by (relation "measure (\<lambda>(root_node, fs_of, ul_of, fs, ul, stack). length stack)") auto

section \<open>Python floats\<close>

text \<open>
  A Python float is an IEEE 754 binary64 number. The finite ones are reals and are written
  as such. The program's float arithmetic is the subtraction of lines 86 and 87: the exact
  difference rounded to the nearest binary64 number, ties to the one with an even
  significand, with 53 significant bits, a least exponent of -1022 (below it the spacing
  stays \<open>2 powi (- 1074)\<close>), and an infinity in place of a result of magnitude
  \<open>2 ^ 1024\<close> or more. \<open>min\<close>, \<open>max\<close> and \<open>abs\<close> are exact, and so are the comparisons with
  the integers 0 and 5.
\<close>

definition round_half_even :: "real \<Rightarrow> int" where
  "round_half_even y =
     (if y - of_int \<lfloor>y\<rfloor> < 1 / 2 then \<lfloor>y\<rfloor>
      else if y - of_int \<lfloor>y\<rfloor> > 1 / 2 then \<lfloor>y\<rfloor> + 1
      else if even \<lfloor>y\<rfloor> then \<lfloor>y\<rfloor>
      else \<lfloor>y\<rfloor> + 1)"

definition binary_exponent :: "real \<Rightarrow> int" where
  "binary_exponent x = max \<lfloor>log 2 \<bar>x\<bar>\<rfloor> (- 1022)"

definition round_binary64 :: "real \<Rightarrow> real" where
  "round_binary64 x =
     (if x = 0 then 0
      else of_int (round_half_even (x / 2 powi (binary_exponent x - 52)))
             * 2 powi (binary_exponent x - 52))"

datatype pyfloat = Finite real | PosInf | NegInf

definition to_float :: "real \<Rightarrow> pyfloat" where
  "to_float x =
     (if round_binary64 x \<ge> 2 ^ 1024 then PosInf
      else if round_binary64 x \<le> - (2 ^ 1024) then NegInf
      else Finite (round_binary64 x))"

text \<open>\<open>a - b\<close> on finite floats, \<open>abs(x)\<close>, \<open>x < c\<close> and \<open>x > c\<close> for a finite \<open>c\<close>.\<close>

definition float_sub :: "real \<Rightarrow> real \<Rightarrow> pyfloat" where
  "float_sub a b = to_float (a - b)"

fun float_abs :: "pyfloat \<Rightarrow> pyfloat" where
  "float_abs (Finite x) = Finite \<bar>x\<bar>"
| "float_abs PosInf = PosInf"
| "float_abs NegInf = PosInf"

fun float_less :: "pyfloat \<Rightarrow> real \<Rightarrow> bool" where
  "float_less (Finite x) c \<longleftrightarrow> x < c"
| "float_less PosInf c \<longleftrightarrow> False"
| "float_less NegInf c \<longleftrightarrow> True"

fun float_greater :: "pyfloat \<Rightarrow> real \<Rightarrow> bool" where
  "float_greater (Finite x) c \<longleftrightarrow> x > c"
| "float_greater PosInf c \<longleftrightarrow> True"
| "float_greater NegInf c \<longleftrightarrow> False"

section \<open>The element classifier: underline detection\<close>

text \<open>
  What \<open>page.get_drawings()\<close> hands over, as far as lines 42 to 50 read it. A \<open>fitz.Rect\<close>
  has its four coordinates and the \<open>height\<close> the library reports for it. An item of a
  drawing is a tuple whose first component names its kind: \<open>"re"\<close> with a rectangle,
  or a line, a curve or a quad. A drawing has a \<open>type\<close> (\<open>d.get("type")\<close> is \<open>None\<close> when
  the key is missing) and its items (\<open>d.get("items", [])\<close>). Coordinates are finite
  floats, written as the reals they are.
\<close>

record rect =
  rect_x0 :: real
  rect_y0 :: real
  rect_x1 :: real
  rect_y1 :: real
  rect_height :: real

datatype draw_item = Re rect | Line | Curve | Quad

record drawing =
  drawing_type :: "string option"
  drawing_items :: "draw_item list"

text \<open>Lines 45 to 50, for the items of one drawing.\<close>

fun thin_rects :: "draw_item list \<Rightarrow> rect list" where
  "thin_rects [] = []"
| "thin_rects (Re r # items) =
     (if rect_height r < 5 then r # thin_rects items else thin_rects items)"
| "thin_rects (item # items) = thin_rects items"

text \<open>Lines 41 to 50: \<open>underline_rects\<close> of a page.\<close>

fun underline_rects :: "drawing list \<Rightarrow> rect list" where
  "underline_rects [] = []"
| "underline_rects (d # drawings) =
     (if drawing_type d = Some ''f'' then thin_rects (drawing_items d) @ underline_rects drawings
      else underline_rects drawings)"

text \<open>
  Lines 73 to 80: the union of the bounding boxes \<open>(x0, y0, x1, y1)\<close> of the spans of a
  line, \<open>None\<close> for a line without spans.
\<close>

text \<open>\<open>min\<close> and \<open>max\<close> of a list; the program calls them on non-empty lists only.\<close>

fun min_of :: "real list \<Rightarrow> real" where
  "min_of [] = 0"
| "min_of [x] = x"
| "min_of (x # xs) = min x (min_of xs)"

fun max_of :: "real list \<Rightarrow> real" where
  "max_of [] = 0"
| "max_of [x] = x"
| "max_of (x # xs) = max x (max_of xs)"

definition line_bbox :: "(real \<times> real \<times> real \<times> real) list \<Rightarrow> (real \<times> real \<times> real \<times> real) option" where
  "line_bbox span_bboxes =
     (if span_bboxes \<noteq> [] then
        Some (min_of (map (\<lambda>(x0, y0, x1, y1). x0) span_bboxes),
              min_of (map (\<lambda>(x0, y0, x1, y1). y0) span_bboxes),
              max_of (map (\<lambda>(x0, y0, x1, y1). x1) span_bboxes),
              max_of (map (\<lambda>(x0, y0, x1, y1). y1) span_bboxes))
      else None)"

text \<open>
  Lines 85 to 89: the loop over the rectangles, left at the first one that fits. The
  overlap of line 86 and the difference of line 87 are float subtractions.
\<close>

fun scan_rects :: "real \<times> real \<times> real \<times> real \<Rightarrow> rect list \<Rightarrow> bool" where
  "scan_rects bbox [] = False"
| "scan_rects (x0, y0, x1, y1) (r # rects) =
     (if float_greater (float_sub (min x1 (rect_x1 r)) (max x0 (rect_x0 r))) 0
         \<and> float_less (float_abs (float_sub (rect_y0 r) y1)) 5
      then True
      else scan_rects (x0, y0, x1, y1) rects)"

text \<open>Lines 58 and 84 to 89: \<open>is_underlined\<close> of a line on a page with these drawings.\<close>

definition line_is_underlined :: "drawing list \<Rightarrow> (real \<times> real \<times> real \<times> real) list \<Rightarrow> bool" where
  "line_is_underlined drawings span_bboxes =
     (case line_bbox span_bboxes of
        None \<Rightarrow> False
      | Some bbox \<Rightarrow> scan_rects bbox (underline_rects drawings))"

section \<open>Invariants of the builder\<close>

text \<open>An attribute dictionary with all four keys, as \<open>add_node\<close> is always called.\<close>

definition attrs_complete :: "node_attrs \<Rightarrow> bool" where
  "attrs_complete a \<longleftrightarrow>
     level a \<noteq> None \<and> content a \<noteq> None \<and> font_size a \<noteq> None \<and> is_underlined a \<noteq> None"

text \<open>
  What holds of every state the loop reaches from a new graph: node identifiers are
  unique, every node has all its attributes, and the root, the entries of the stack and
  the current node are nodes. No \<open>KeyError\<close> is raised from such a state.
\<close>

definition builder_ok :: "string \<Rightarrow> builder \<Rightarrow> bool" where
  "builder_ok r st \<longleftrightarrow>
     distinct (node_ids (graph st))
     \<and> (\<forall>n a. attrs_of (graph st) n = Some a \<longrightarrow> attrs_complete a)
     \<and> r \<in> set (node_ids (graph st))
     \<and> set (node_stack st) \<subseteq> set (node_ids (graph st))
     \<and> current_node st \<in> set (node_ids (graph st))"

text \<open>
  What holds in addition while no heading text repeats and none is the root's identifier:
  the nodes are the root and then one node per edge, in the order of the edges, each the
  target of its edge; the stack starts at the root and holds no node twice; the node at
  depth \<open>j\<close> of the stack has level \<open>j\<close>; along every edge the level grows by one.
\<close>

definition tree_ok :: "string \<Rightarrow> builder \<Rightarrow> bool" where
  "tree_ok r st \<longleftrightarrow>
     node_ids (graph st) = r # map snd (edges (graph st))
     \<and> node_stack st \<noteq> [] \<and> hd (node_stack st) = r \<and> distinct (node_stack st)
     \<and> (\<forall>j < length (node_stack st). level_of (graph st) (node_stack st ! j) = Some j)
     \<and> (\<forall>(p, c) \<in> set (edges (graph st)).
           \<exists>l. level_of (graph st) p = Some l \<and> level_of (graph st) c = Some (Suc l))"

section \<open>Heading qualification as the specification words it\<close>

text \<open>
  Section 4.2: the reference size is the font size of the first non-bold element of the
  whole sequence, 8.0 when there is none; a bold element that is past the two skips
  qualifies as a heading when its font size strictly exceeds the reference, or its text
  ends with a colon, or the element right after it exists, is not bold and starts with a
  colon.
\<close>

definition spec_regular_font_size :: "element list \<Rightarrow> real" where
  "spec_regular_font_size elements =
     (case find (\<lambda>e. \<not> elem_is_bold e) elements of
        None \<Rightarrow> 8
      | Some e \<Rightarrow> elem_font_size e)"

definition spec_qualifies :: "element list \<Rightarrow> nat \<Rightarrow> bool" where
  "spec_qualifies elements i \<longleftrightarrow>
     elem_font_size (elements ! i) > spec_regular_font_size elements
     \<or> (elem_text (elements ! i) \<noteq> [] \<and> last (elem_text (elements ! i)) = CHR '':'')
     \<or> (Suc i < length elements \<and> \<not> elem_is_bold (elements ! Suc i)
         \<and> elem_text (elements ! Suc i) \<noteq> []
         \<and> hd (elem_text (elements ! Suc i)) = CHR '':'')"

section \<open>Example inputs\<close>

text \<open>The literal element sequence of the tie-break scenario (section 8 of the specification).\<close>

definition tie_break_elements :: "element list" where
  "tie_break_elements =
     [\<lparr>elem_text = ''Title'', elem_font = ''Bold'', elem_font_size = 14,
       elem_is_bold = True, elem_is_underlined = False, elem_page = 1\<rparr>,
      \<lparr>elem_text = ''Section A:'', elem_font = ''Bold'', elem_font_size = 12,
       elem_is_bold = True, elem_is_underlined = True, elem_page = 1\<rparr>,
      \<lparr>elem_text = ''body1'', elem_font = ''Regular'', elem_font_size = 10,
       elem_is_bold = False, elem_is_underlined = False, elem_page = 1\<rparr>,
      \<lparr>elem_text = ''Section B:'', elem_font = ''Bold'', elem_font_size = 12,
       elem_is_bold = True, elem_is_underlined = False, elem_page = 1\<rparr>,
      \<lparr>elem_text = ''body2'', elem_font = ''Regular'', elem_font_size = 10,
       elem_is_bold = False, elem_is_underlined = False, elem_page = 1\<rparr>]"

text \<open>A page with one thin filled rectangle and one tall one, and a line of two spans.\<close>

definition page_drawings :: "drawing list" where
  "page_drawings =
     [\<lparr>drawing_type = Some ''f'',
       drawing_items =
         [Re \<lparr>rect_x0 = 0, rect_y0 = 0, rect_x1 = 200, rect_y1 = 50, rect_height = 50\<rparr>,
          Line,
          Re \<lparr>rect_x0 = 10, rect_y0 = 21, rect_x1 = 90, rect_y1 = 22, rect_height = 1\<rparr>]\<rparr>]"

definition line_spans :: "(real \<times> real \<times> real \<times> real) list" where
  "line_spans = [(10, 10, 50, 20), (50, 9, 90, 19)]"

text \<open>
  A page whose thin rectangle has its top at the float \<open>5.1\<close>, and a line whose bottom is
  at the float \<open>0.1\<close>: the binary64 numbers nearest to these decimals.
\<close>

definition rounding_rect :: rect where
  "rounding_rect =
     \<lparr>rect_x0 = 0, rect_y0 = 5742089524897382 / 2 ^ 50, rect_x1 = 100,
      rect_y1 = 6305039478318694 / 2 ^ 50, rect_height = 1 / 2\<rparr>"

definition rounding_drawings :: "drawing list" where
  "rounding_drawings = [\<lparr>drawing_type = Some ''f'', drawing_items = [Re rounding_rect]\<rparr>]"

definition rounding_spans :: "(real \<times> real \<times> real \<times> real) list" where
  "rounding_spans = [(0, - 10, 100, 3602879701896397 / 2 ^ 55)]"

text \<open>A sequence whose last heading pops the heading before it.\<close>

definition popping_elements :: "element list" where
  "popping_elements =
     [\<lparr>elem_text = ''Title'', elem_font = ''Bold'', elem_font_size = 14,
       elem_is_bold = True, elem_is_underlined = False, elem_page = 1\<rparr>,
      \<lparr>elem_text = ''Part'', elem_font = ''Bold'', elem_font_size = 20,
       elem_is_bold = True, elem_is_underlined = False, elem_page = 1\<rparr>,
      \<lparr>elem_text = ''Item'', elem_font = ''Bold'', elem_font_size = 12,
       elem_is_bold = True, elem_is_underlined = False, elem_page = 1\<rparr>,
      \<lparr>elem_text = ''text'', elem_font = ''Regular'', elem_font_size = 10,
       elem_is_bold = False, elem_is_underlined = False, elem_page = 1\<rparr>,
      \<lparr>elem_text = ''Next'', elem_font = ''Bold'', elem_font_size = 12,
       elem_is_bold = True, elem_is_underlined = True, elem_page = 1\<rparr>]"

text \<open>A sequence with a standalone number after a heading.\<close>

definition numbered_elements :: "element list" where
  "numbered_elements =
     [\<lparr>elem_text = ''Title'', elem_font = ''Bold'', elem_font_size = 14,
       elem_is_bold = True, elem_is_underlined = False, elem_page = 1\<rparr>,
      \<lparr>elem_text = ''Steps:'', elem_font = ''Bold'', elem_font_size = 10,
       elem_is_bold = True, elem_is_underlined = False, elem_page = 1\<rparr>,
      \<lparr>elem_text = ''3.'', elem_font = ''Regular'', elem_font_size = 10,
       elem_is_bold = False, elem_is_underlined = False, elem_page = 1\<rparr>,
      \<lparr>elem_text = ''mix well'', elem_font = ''Regular'', elem_font_size = 10,
       elem_is_bold = False, elem_is_underlined = False, elem_page = 1\<rparr>]"

text \<open>A sequence in which the heading text \<open>A\<close> comes twice.\<close>

definition duplicate_elements :: "element list" where
  "duplicate_elements =
     [\<lparr>elem_text = ''Title'', elem_font = ''Bold'', elem_font_size = 14,
       elem_is_bold = True, elem_is_underlined = False, elem_page = 1\<rparr>,
      \<lparr>elem_text = ''A'', elem_font = ''Bold'', elem_font_size = 20,
       elem_is_bold = True, elem_is_underlined = False, elem_page = 1\<rparr>,
      \<lparr>elem_text = ''alpha'', elem_font = ''Regular'', elem_font_size = 10,
       elem_is_bold = False, elem_is_underlined = False, elem_page = 1\<rparr>,
      \<lparr>elem_text = ''B'', elem_font = ''Bold'', elem_font_size = 15,
       elem_is_bold = True, elem_is_underlined = False, elem_page = 1\<rparr>,
      \<lparr>elem_text = ''A'', elem_font = ''Bold'', elem_font_size = 12,
       elem_is_bold = True, elem_is_underlined = False, elem_page = 2\<rparr>]"

text \<open>The graph that the builder leaves for \<open>duplicate_elements\<close> and the document \<open>doc\<close>.\<close>

definition duplicate_tree :: digraph where
  "duplicate_tree =
     \<lparr>nodes = [(''doc'', \<lparr>level = Some 0, content = Some ''(No description)'',
                          font_size = Some 100, is_underlined = Some False\<rparr>),
               (''A'', \<lparr>level = Some 3, content = Some ''(No description)'',
                        font_size = Some 12, is_underlined = Some False\<rparr>),
               (''B'', \<lparr>level = Some 2, content = Some ''(No description)'',
                        font_size = Some 15, is_underlined = Some False\<rparr>)],
      edges = [(''doc'', ''A''), (''A'', ''B''), (''B'', ''A'')]\<rparr>"

section \<open>Evaluating the definitions\<close>

declare pop_stack.simps [simp del]
declare spec_parent_stack.simps [simp del]

lemmas builder_defs =
  build_knowledge_graph_def run_loop_def initial_builder_def loop_body_def
  insert_heading_def select_parent_def add_content_def add_node_def add_edge_def
  ensure_node_def update_attrs_def no_attrs_def cleanup_def clean_content_def
  py_strip_def py_isspace_def py_isdigit_def numbered_item_def is_heading_def
  next_starts_with_colon_def startswith_def endswith_def equal_sizes_def DiGraph_def
  pop_stack.simps

section \<open>The tie-break scenario\<close>

text \<open>
  Claim C1 as the specification states it: in the tie-break scenario "Section A:" and
  "Section B:" are both children of the root, and "Section B:" does not nest under
  "Section A:". The builder does otherwise: the edges of the tree it produces for the
  document \<open>doc\<close> are root to "Section A:" and "Section A:" to "Section B:".
\<close>

theorem tie_break_siblings_counterexample:
  "map_sum id edges (build_knowledge_graph DiGraph tie_break_elements ''doc'') =
     Inr [(''doc'', ''Section A:''), (''Section A:'', ''Section B:'')]"
  by (simp add: tie_break_elements_def builder_defs)

text \<open>
  Claim C1, amended: for the tie-break sequence and a root that is neither of the two
  heading texts, the builder produces the root, "Section A:" at level 1 with content
  "body1" and "Section B:" at level 2 with content "body2"; "Section A:" is a child of
  the root and "Section B:" is a child of "Section A:" (the underlined heading stays
  the parent of the later heading of the same size that is not underlined).
\<close>

theorem tie_break_nests:
  assumes "r \<noteq> ''Section A:''" and "r \<noteq> ''Section B:''"
  shows "build_knowledge_graph DiGraph tie_break_elements r =
     Inr \<lparr>nodes =
            [(r, \<lparr>level = Some 0, content = Some ''(No description)'',
                  font_size = Some 100, is_underlined = Some False\<rparr>),
             (''Section A:'', \<lparr>level = Some 1, content = Some ''body1'',
                  font_size = Some 12, is_underlined = Some True\<rparr>),
             (''Section B:'', \<lparr>level = Some 2, content = Some ''body2'',
                  font_size = Some 12, is_underlined = Some False\<rparr>)],
          edges = [(r, ''Section A:''), (''Section A:'', ''Section B:'')]\<rparr>"
  using assms assms[symmetric] by (simp add: tie_break_elements_def builder_defs)

theorem tie_break_nests_witness:
  "''doc'' \<noteq> ''Section A:'' \<and> ''doc'' \<noteq> ''Section B:'' \<and>
   build_knowledge_graph DiGraph tie_break_elements ''doc'' =
     Inr \<lparr>nodes =
            [(''doc'', \<lparr>level = Some 0, content = Some ''(No description)'',
                  font_size = Some 100, is_underlined = Some False\<rparr>),
             (''Section A:'', \<lparr>level = Some 1, content = Some ''body1'',
                  font_size = Some 12, is_underlined = Some True\<rparr>),
             (''Section B:'', \<lparr>level = Some 2, content = Some ''body2'',
                  font_size = Some 12, is_underlined = Some False\<rparr>)],
          edges = [(''doc'', ''Section A:''), (''Section A:'', ''Section B:'')]\<rparr>"
  using tie_break_nests [of "''doc''"] by simp

section \<open>Parent selection\<close>

lemma pop_stack_Nil: "pop_stack r g fs ul [] = Inr []"
  by (simp add: pop_stack.simps [of _ _ _ _ "[]"])

lemma pop_stack_snoc:
  assumes "attrs_of g x = Some a" and "font_size a = Some cfs"
  shows "pop_stack r g fs ul (xs @ [x]) =
     (if x = r \<or> cfs > fs then Inr (xs @ [x])
      else if cfs = fs then
        (if (case is_underlined a of None \<Rightarrow> False | Some b \<Rightarrow> b) = ul
         then pop_stack r g fs ul xs
         else if (case is_underlined a of None \<Rightarrow> False | Some b \<Rightarrow> b) \<and> \<not> ul
         then Inr (xs @ [x])
         else pop_stack r g fs ul xs)
      else pop_stack r g fs ul xs)"
proof (cases "xs = []")
  case True
  show ?thesis
    using assms unfolding True
    by (subst pop_stack.simps) (auto simp: attrs_of_def equal_sizes_def pop_stack_Nil)
next
  case False
  show ?thesis
    using assms False
    by (subst pop_stack.simps) (auto simp: attrs_of_def equal_sizes_def)
qed

lemma spec_parent_stack_Nil: "spec_parent_stack r fs_of ul_of fs ul [] = [r]"
  by (simp add: spec_parent_stack.simps [of _ _ _ _ _ "[]"])

lemma spec_parent_stack_snoc:
  "spec_parent_stack r fs_of ul_of fs ul (xs @ [x]) =
     (if x = r \<or> fs_of x > fs then xs @ [x]
      else if fs_of x = fs then
        (if ul_of x = ul then spec_parent_stack r fs_of ul_of fs ul xs
         else if ul_of x \<and> \<not> ul then xs @ [x]
         else spec_parent_stack r fs_of ul_of fs ul xs)
      else spec_parent_stack r fs_of ul_of fs ul xs)"
  by (subst spec_parent_stack.simps) simp

lemma pop_stack_spec:
  assumes "\<forall>n \<in> set stack. \<exists>a. attrs_of g n = Some a \<and> font_size a = Some (fs_of n)
             \<and> (case is_underlined a of None \<Rightarrow> False | Some b \<Rightarrow> b) = ul_of n"
  shows "\<exists>stk. pop_stack r g fs ul stack = Inr stk
           \<and> spec_parent_stack r fs_of ul_of fs ul stack = (if stk = [] then [r] else stk)"
  using assms
proof (induction stack rule: rev_induct)
  case Nil
  show ?case by (simp add: pop_stack_Nil spec_parent_stack_Nil)
next
  case (snoc x xs)
  from snoc.prems obtain a where a: "attrs_of g x = Some a" "font_size a = Some (fs_of x)"
      "(case is_underlined a of None \<Rightarrow> False | Some b \<Rightarrow> b) = ul_of x"
    by auto
  from snoc obtain stk where IH: "pop_stack r g fs ul xs = Inr stk"
      "spec_parent_stack r fs_of ul_of fs ul xs = (if stk = [] then [r] else stk)"
    by auto
  define stop where
    "stop \<longleftrightarrow> x = r \<or> fs_of x > fs \<or> (fs_of x = fs \<and> ul_of x \<and> \<not> ul)"
  have p: "pop_stack r g fs ul (xs @ [x]) =
             (if stop then Inr (xs @ [x]) else pop_stack r g fs ul xs)"
    unfolding pop_stack_snoc [OF a(1,2)] a(3) stop_def by auto
  have s: "spec_parent_stack r fs_of ul_of fs ul (xs @ [x]) =
             (if stop then xs @ [x] else spec_parent_stack r fs_of ul_of fs ul xs)"
    unfolding spec_parent_stack_snoc stop_def by auto
  show ?case
  proof (cases stop)
    case True
    then show ?thesis unfolding p s by simp
  next
    case False
    then show ?thesis unfolding p s using IH by simp
  qed
qed

lemma select_parent_spec:
  assumes "\<forall>n \<in> set stack. \<exists>a. attrs_of g n = Some a \<and> font_size a = Some (fs_of n)
             \<and> (case is_underlined a of None \<Rightarrow> False | Some b \<Rightarrow> b) = ul_of n"
  shows "select_parent r g fs ul stack =
           Inr (last (spec_parent_stack r fs_of ul_of fs ul stack),
                spec_parent_stack r fs_of ul_of fs ul stack)"
  using pop_stack_spec [OF assms, of r fs ul]
  by (auto simp: select_parent_def)

section \<open>Float subtraction\<close>

lemma round_half_even_ge: "of_int n \<le> y \<Longrightarrow> n \<le> round_half_even y"
proof -
  assume "of_int n \<le> y"
  then have "n \<le> \<lfloor>y\<rfloor>" by (simp add: le_floor_iff)
  then show ?thesis by (auto simp: round_half_even_def)
qed

lemma round_half_even_le: "y \<le> of_int n \<Longrightarrow> round_half_even y \<le> n"
proof (cases "y = of_int n")
  case True
  then show ?thesis by (simp add: round_half_even_def)
next
  case False
  assume "y \<le> of_int n"
  with False have "y < of_int n" by simp
  then have "\<lfloor>y\<rfloor> < n" by (simp add: floor_less_iff)
  then show ?thesis by (auto simp: round_half_even_def)
qed

lemma floor_log2:
  assumes "0 < x" and "2 powi k \<le> x" and "x < 2 powi (k + 1)"
  shows "\<lfloor>log 2 x\<rfloor> = k"
proof (rule floor_unique)
  have p: "2 powr (real_of_int j) = 2 powi j" for j
    by (rule powr_real_of_int') simp_all
  have "2 powr (of_int k) \<le> x" using assms(2) by (simp only: p)
  then show "of_int k \<le> log 2 x" using assms(1) le_log_iff [of 2 x "of_int k"] by simp
  have "x < 2 powr (of_int (k + 1))" using assms(3) by (simp only: p)
  then have "log 2 x < of_int (k + 1)"
    using assms(1) log_less_iff [of 2 x "of_int (k + 1)"] by simp
  then show "log 2 x < of_int k + 1" by simp
qed

lemma pow2_floor_log_le:
  assumes "0 < x"
  shows "2 powi \<lfloor>log 2 x\<rfloor> \<le> x"
proof -
  have p: "2 powr (real_of_int j) = 2 powi j" for j
    by (rule powr_real_of_int') simp_all
  have "of_int \<lfloor>log 2 x\<rfloor> \<le> log 2 x" by simp
  then have "2 powr (of_int \<lfloor>log 2 x\<rfloor>) \<le> x"
    using assms le_log_iff [of 2 x "of_int \<lfloor>log 2 x\<rfloor>"] by simp
  then show ?thesis by (simp only: p)
qed

lemma round_binary64_nonpos: "x \<le> 0 \<Longrightarrow> round_binary64 x \<le> 0"
proof -
  assume x: "x \<le> 0"
  define u where "u = (2::real) powi (binary_exponent x - 52)"
  have u: "u > 0" by (simp add: u_def)
  then have "x / u \<le> of_int 0" using x by (simp add: divide_nonpos_pos)
  then have "round_half_even (x / u) \<le> 0" by (rule round_half_even_le)
  then have "of_int (round_half_even (x / u)) * u \<le> 0"
    using u by (simp add: mult_le_0_iff)
  then show ?thesis by (simp add: round_binary64_def u_def)
qed

lemma round_binary64_ge_5:
  assumes "5 \<le> x"
  shows "5 \<le> round_binary64 x"
proof -
  have x0: "0 < x" "x \<noteq> 0" "\<bar>x\<bar> = x" using assms by simp_all
  define e where "e = \<lfloor>log 2 x\<rfloor>"
  have "of_int 2 \<le> log 2 x"
    using assms x0(1) by (simp add: le_log_iff)
  then have e2: "2 \<le> e" unfolding e_def by (simp add: le_floor_iff)
  then have be: "binary_exponent x = e" by (simp add: binary_exponent_def x0 e_def)
  have le: "2 powi e \<le> x" unfolding e_def using x0(1) by (rule pow2_floor_log_le)
  define u where "u = (2::real) powi (e - 52)"
  have u: "u > 0" by (simp add: u_def)
  have r: "round_binary64 x = of_int (round_half_even (x / u)) * u"
    by (simp add: round_binary64_def x0 be u_def)
  show ?thesis
  proof (cases "e = 2")
    case True
    then have uv: "u = 1 / 2 ^ 50" by (simp add: u_def power_int_def power_one_over)
    have "of_int (5 * 2 ^ 50) \<le> x / u" using assms by (simp add: uv)
    then have "5 * 2 ^ 50 \<le> round_half_even (x / u)" by (rule round_half_even_ge)
    then have "real_of_int (5 * 2 ^ 50) \<le> real_of_int (round_half_even (x / u))"
      by (simp only: of_int_le_iff)
    then have "(5 * 2 ^ 50 :: real) \<le> of_int (round_half_even (x / u))"
      by simp
    then show ?thesis by (simp add: r uv field_simps)
  next
    case False
    with e2 have e3: "3 \<le> e" by simp
    have "2 powi e / u = (2::real) powi 52"
      by (simp add: u_def power_int_diff)
    then have "of_int (2 ^ 52) \<le> x / u"
      using le u by (simp add: divide_right_mono field_simps)
    then have "2 ^ 52 \<le> round_half_even (x / u)" by (rule round_half_even_ge)
    then have "real_of_int (2 ^ 52) \<le> real_of_int (round_half_even (x / u))"
      by (simp only: of_int_le_iff)
    then have "(2 ^ 52 :: real) \<le> of_int (round_half_even (x / u))"
      by simp
    then have "2 ^ 52 * u \<le> round_binary64 x" using u by (simp add: r)
    moreover have "2 ^ 52 * u = (2::real) powi e"
      by (simp add: u_def power_int_diff)
    moreover have "(2::real) powi 3 \<le> 2 powi e"
      using e3 by (intro power_int_increasing) simp_all
    ultimately show ?thesis by simp
  qed
qed

lemma round_binary64_le_minus_5:
  assumes "x \<le> - 5"
  shows "round_binary64 x \<le> - 5"
proof -
  have x0: "0 < - x" "x \<noteq> 0" "\<bar>x\<bar> = - x" using assms by simp_all
  define e where "e = \<lfloor>log 2 (- x)\<rfloor>"
  have "of_int 2 \<le> log 2 (- x)"
    using assms x0(1) le_log_iff [of 2 "- x" "of_int 2"] by simp
  then have e2: "2 \<le> e" unfolding e_def by (simp add: le_floor_iff)
  then have be: "binary_exponent x = e" by (simp add: binary_exponent_def x0 e_def)
  have le: "2 powi e \<le> - x" unfolding e_def using x0(1) by (rule pow2_floor_log_le)
  define u where "u = (2::real) powi (e - 52)"
  have u: "u > 0" by (simp add: u_def)
  have r: "round_binary64 x = of_int (round_half_even (x / u)) * u"
    by (simp add: round_binary64_def x0 be u_def)
  show ?thesis
  proof (cases "e = 2")
    case True
    then have uv: "u = 1 / 2 ^ 50" by (simp add: u_def power_int_def power_one_over)
    have "x / u \<le> of_int (- (5 * 2 ^ 50))" using assms by (simp add: uv)
    then have "round_half_even (x / u) \<le> - (5 * 2 ^ 50)" by (rule round_half_even_le)
    then have "real_of_int (round_half_even (x / u)) \<le> real_of_int (- (5 * 2 ^ 50))"
      by (simp only: of_int_le_iff)
    then have "of_int (round_half_even (x / u)) \<le> (- (5 * 2 ^ 50) :: real)"
      by simp
    then show ?thesis by (simp add: r uv field_simps)
  next
    case False
    with e2 have e3: "3 \<le> e" by simp
    have "2 powi e / u = (2::real) powi 52"
      by (simp add: u_def power_int_diff)
    moreover have "x / u \<le> - (2 powi e / u)"
      using le u by (simp add: field_simps)
    ultimately have "x / u \<le> of_int (- (2 ^ 52))" by simp
    then have "round_half_even (x / u) \<le> - (2 ^ 52)" by (rule round_half_even_le)
    then have "real_of_int (round_half_even (x / u)) \<le> real_of_int (- (2 ^ 52))"
      by (simp only: of_int_le_iff)
    then have "of_int (round_half_even (x / u)) \<le> (- (2 ^ 52) :: real)"
      by simp
    then have "of_int (round_half_even (x / u)) * u \<le> (- (2 ^ 52)) * u"
      using u by (intro mult_right_mono) simp_all
    then have "round_binary64 x \<le> - (2 ^ 52) * u"
      by (simp add: r)
    moreover have "2 ^ 52 * u = (2::real) powi e"
      by (simp add: u_def power_int_diff)
    moreover have "(2::real) powi 3 \<le> 2 powi e"
      using e3 by (intro power_int_increasing) simp_all
    ultimately show ?thesis by simp
  qed
qed

lemma float_less_abs_5:
  assumes "float_less (float_abs (to_float x)) 5"
  shows "\<bar>x\<bar> < 5"
proof (rule ccontr)
  assume "\<not> \<bar>x\<bar> < 5"
  then consider "5 \<le> x" | "x \<le> - 5" by linarith
  then show False
  proof cases
    case 1
    then have "5 \<le> round_binary64 x" by (rule round_binary64_ge_5)
    with assms show False by (auto simp: to_float_def split: if_splits)
  next
    case 2
    then have "round_binary64 x \<le> - 5" by (rule round_binary64_le_minus_5)
    with assms show False by (auto simp: to_float_def split: if_splits)
  qed
qed

lemma float_greater_0:
  assumes "float_greater (to_float x) 0"
  shows "0 < x"
proof (rule ccontr)
  assume "\<not> 0 < x"
  then have "round_binary64 x \<le> 0" by (intro round_binary64_nonpos) simp
  with assms show False by (auto simp: to_float_def split: if_splits)
qed

lemma to_float_example:
  "to_float (5742089524897382 / 2 ^ 50 - 3602879701896397 / 2 ^ 55) = Finite 5"
proof -
  define x :: real where "x = 5742089524897382 / 2 ^ 50 - 3602879701896397 / 2 ^ 55"
  have xv: "x = 5 - 13 / 2 ^ 55" by (simp add: x_def)
  have pos: "0 < x" by (simp add: xv)
  have "\<lfloor>log 2 x\<rfloor> = 2"
    by (rule floor_log2) (simp_all add: xv power_int_def)
  then have be: "binary_exponent x = 2" using pos by (simp add: binary_exponent_def)
  have u: "(2::real) powi (2 - 52) = 1 / 2 ^ 50" by (simp add: power_int_def power_one_over)
  have q: "x / (1 / 2 ^ 50) = 5629499534213120 - 13 / 32" by (simp add: xv)
  have fl: "\<lfloor>x / (1 / 2 ^ 50)\<rfloor> = 5629499534213119"
    unfolding q by (rule floor_unique) simp_all
  have "round_half_even (x / (1 / 2 ^ 50)) = 5629499534213120"
    unfolding round_half_even_def fl unfolding q by simp
  then have "round_binary64 x = 5"
    using pos by (simp add: round_binary64_def be u)
  then show ?thesis unfolding x_def by (simp add: to_float_def)
qed

lemma round_half_even_int: "round_half_even (of_int n) = n"
  by (simp add: round_half_even_def)

lemma round_binary64_exact:
  assumes "0 < x" and "2 powi e \<le> x" and "x < 2 powi (e + 1)" and "- 1022 \<le> e"
    and "x / 2 powi (e - 52) = of_int n"
  shows "round_binary64 x = x"
proof -
  have "\<lfloor>log 2 x\<rfloor> = e" using assms(1,2,3) by (rule floor_log2)
  then have be: "binary_exponent x = e" using assms(1,4) by (simp add: binary_exponent_def)
  have "of_int n * 2 powi (e - 52) = x"
    using assms(5) by (simp add: field_simps)
  then show ?thesis
    using assms(1) by (simp add: round_binary64_def be assms(5) round_half_even_int)
qed

lemma to_float_finite:
  "round_binary64 x = y \<Longrightarrow> y < 2 ^ 1024 \<Longrightarrow> - (2 ^ 1024) < y \<Longrightarrow> to_float x = Finite y"
  by (simp add: to_float_def)

lemma to_float_100: "to_float 100 = Finite 100"
proof -
  have "round_binary64 100 = 100"
    by (rule round_binary64_exact [where e = 6 and n = "100 * 2 ^ 46"])
       (simp_all add: power_int_def power_one_over)
  then show ?thesis by (rule to_float_finite) simp_all
qed

lemma round_binary64_pos_multiple:
  assumes "0 < x" and "x = of_int k / 2 ^ 1074"
  shows "0 < round_binary64 x"
proof -
  from assms have "0 < k" by (simp add: zero_less_divide_iff)
  then have "1 \<le> k" by simp
  then have "(1::real) \<le> of_int k" by simp
  then have small: "1 / 2 ^ 1074 \<le> x"
    unfolding assms(2) by (intro divide_right_mono) simp_all
  define e where "e = binary_exponent x"
  define u where "u = (2::real) powi (e - 52)"
  have u: "u > 0" by (simp add: u_def)
  have "u \<le> x"
  proof (cases "- 1022 \<le> \<lfloor>log 2 \<bar>x\<bar>\<rfloor>")
    case True
    then have "e = \<lfloor>log 2 x\<rfloor>" using assms(1) by (simp add: e_def binary_exponent_def)
    moreover have "2 powi \<lfloor>log 2 x\<rfloor> \<le> x" using assms(1) by (rule pow2_floor_log_le)
    moreover have "(2::real) powi (e - 52) \<le> 2 powi e"
      by (intro power_int_increasing) simp_all
    ultimately show ?thesis by (simp add: u_def)
  next
    case False
    then have "e = - 1022" by (simp add: e_def binary_exponent_def)
    then have "u = 1 / 2 ^ 1074" by (simp add: u_def power_int_def power_one_over)
    with small show ?thesis by simp
  qed
  then have "of_int 1 \<le> x / u" using u by (simp add: field_simps)
  then have "1 \<le> round_half_even (x / u)" by (rule round_half_even_ge)
  then have "(0::real) < of_int (round_half_even (x / u))" by simp
  then have "0 < of_int (round_half_even (x / u)) * u" using u by simp
  then show ?thesis using assms(1) by (simp add: round_binary64_def u_def e_def)
qed

lemma float_greater_0_multiple:
  assumes "x = of_int k / 2 ^ 1074"
  shows "float_greater (to_float x) 0 \<longleftrightarrow> 0 < x"
proof
  assume "float_greater (to_float x) 0"
  then show "0 < x" by (rule float_greater_0)
next
  assume "0 < x"
  then have "0 < round_binary64 x" using assms by (rule round_binary64_pos_multiple)
  then show "float_greater (to_float x) 0"
    by (auto simp: to_float_def)
qed

lemma to_float_80: "to_float 80 = Finite 80"
proof -
  have "round_binary64 80 = 80"
    by (rule round_binary64_exact [where e = 6 and n = "80 * 2 ^ 46"])
       (simp_all add: power_int_def power_one_over)
  then show ?thesis by (rule to_float_finite) simp_all
qed

lemma to_float_1: "to_float 1 = Finite 1"
proof -
  have "round_binary64 1 = 1"
    by (rule round_binary64_exact [where e = 0 and n = "2 ^ 52"])
       (simp_all add: power_int_def power_one_over)
  then show ?thesis by (rule to_float_finite) simp_all
qed

section \<open>Underline detection\<close>

lemma thin_rects_set:
  "set (thin_rects items) = {r. Re r \<in> set items \<and> rect_height r < 5}"
  by (induction items rule: thin_rects.induct) auto

lemma underline_rects_set:
  "set (underline_rects ds) =
     {r. \<exists>d \<in> set ds. drawing_type d = Some ''f'' \<and> Re r \<in> set (drawing_items d)
           \<and> rect_height r < 5}"
  by (induction ds) (auto simp: thin_rects_set)

lemma scan_rects_iff:
  "scan_rects (x0, y0, x1, y1) rs \<longleftrightarrow>
     (\<exists>r \<in> set rs. float_greater (float_sub (min x1 (rect_x1 r)) (max x0 (rect_x0 r))) 0
        \<and> float_less (float_abs (float_sub (rect_y0 r) y1)) 5)"
  by (induction rs) auto

lemma scan_rects_first:
  "float_greater (float_sub (min x1 (rect_x1 r)) (max x0 (rect_x0 r))) 0
     \<and> float_less (float_abs (float_sub (rect_y0 r) y1)) 5 \<Longrightarrow>
   scan_rects (x0, y0, x1, y1) (pre @ r # post) = scan_rects (x0, y0, x1, y1) (pre @ [r])"
  by (induction pre) auto

lemma underlined_iff:
  "line_is_underlined drawings span_bboxes \<longleftrightarrow>
      (\<exists>x0 y0 x1 y1. line_bbox span_bboxes = Some (x0, y0, x1, y1) \<and>
         (\<exists>d r. d \<in> set drawings \<and> drawing_type d = Some ''f'' \<and> Re r \<in> set (drawing_items d)
            \<and> rect_height r < 5
            \<and> float_greater (float_sub (min x1 (rect_x1 r)) (max x0 (rect_x0 r))) 0
            \<and> float_less (float_abs (float_sub (rect_y0 r) y1)) 5))"
proof (cases "line_bbox span_bboxes")
  case None
  then show ?thesis by (simp add: line_is_underlined_def)
next
  case (Some b)
  obtain x0 y0 x1 y1 where b: "b = (x0, y0, x1, y1)" by (cases b) auto
  show ?thesis
    unfolding line_is_underlined_def Some b
    by (simp add: scan_rects_iff underline_rects_set) blast
qed

text \<open>
  Claim C6 as the specification states it: a line is marked underlined if and only if some
  thin filled rectangle overlaps it horizontally by a positive amount and has its top
  at a distance strictly below 5 from the line's bottom. The "if" half fails where the
  float subtraction of line 87 rounds: with the rectangle's top at the float \<open>5.1\<close> and the
  line's bottom at the float \<open>0.1\<close> the distance is below 5, the program computes
  \<open>5.0\<close>, and the line is not marked.
\<close>

theorem underline_rounding_counterexample:
  "line_bbox rounding_spans = Some (0, - 10, 100, 3602879701896397 / 2 ^ 55)
   \<and> Re rounding_rect \<in> set (drawing_items (hd rounding_drawings))
   \<and> drawing_type (hd rounding_drawings) = Some ''f''
   \<and> rect_height rounding_rect < 5
   \<and> min 100 (rect_x1 rounding_rect) - max 0 (rect_x0 rounding_rect) > 0
   \<and> \<bar>rect_y0 rounding_rect - 3602879701896397 / 2 ^ 55\<bar> < 5
   \<and> float_sub (min 100 (rect_x1 rounding_rect)) (max 0 (rect_x0 rounding_rect)) = Finite 100
   \<and> float_sub (rect_y0 rounding_rect) (3602879701896397 / 2 ^ 55) = Finite 5
   \<and> \<not> line_is_underlined rounding_drawings rounding_spans"
proof -
  have o: "float_sub (min 100 (rect_x1 rounding_rect)) (max 0 (rect_x0 rounding_rect))
      = Finite 100"
    using to_float_100 by (simp add: float_sub_def rounding_rect_def)
  have d: "float_sub (rect_y0 rounding_rect) (3602879701896397 / 2 ^ 55) = Finite 5"
    using to_float_example by (simp add: float_sub_def rounding_rect_def)
  have b: "line_bbox rounding_spans = Some (0, - 10, 100, 3602879701896397 / 2 ^ 55)"
    by (simp add: line_bbox_def rounding_spans_def)
  have "\<not> scan_rects (0, - 10, 100, 3602879701896397 / 2 ^ 55) [rounding_rect]"
    using d by simp
  then have n: "\<not> line_is_underlined rounding_drawings rounding_spans"
    by (simp add: line_is_underlined_def b rounding_drawings_def rounding_rect_def)
  have e: "\<bar>rect_y0 rounding_rect - 3602879701896397 / 2 ^ 55\<bar> < 5"
    by (simp add: rounding_rect_def)
  show ?thesis
    using b d n e o by (simp add: rounding_drawings_def) (simp add: rounding_rect_def)
qed

text \<open>
  Claim C6, amended: a line is marked underlined if and only if it has spans and some
  rectangle item of a filled drawing of its page has a height strictly below 5, an
  overlap with the union of the line's span boxes that the program computes as strictly
  positive, and a difference between its top and the bottom of that union that the
  program computes, in absolute value, as strictly below 5 (both are float subtractions,
  rounded to the nearest float). A line that is marked has such a rectangle with a
  positive overlap and a distance strictly below 5; for floats the computed overlap is
  positive exactly when the overlap is. The scan is over at the first rectangle that
  fits: the rectangles after it do not matter.
\<close>

theorem underline_detection:
  "(line_is_underlined drawings span_bboxes \<longleftrightarrow>
      (\<exists>x0 y0 x1 y1. line_bbox span_bboxes = Some (x0, y0, x1, y1) \<and>
         (\<exists>d r. d \<in> set drawings \<and> drawing_type d = Some ''f'' \<and> Re r \<in> set (drawing_items d)
            \<and> rect_height r < 5
            \<and> float_greater (float_sub (min x1 (rect_x1 r)) (max x0 (rect_x0 r))) 0
            \<and> float_less (float_abs (float_sub (rect_y0 r) y1)) 5)))
   \<and> (line_is_underlined drawings span_bboxes \<longrightarrow>
      (\<exists>x0 y0 x1 y1. line_bbox span_bboxes = Some (x0, y0, x1, y1) \<and>
         (\<exists>d r. d \<in> set drawings \<and> drawing_type d = Some ''f'' \<and> Re r \<in> set (drawing_items d)
            \<and> rect_height r < 5
            \<and> min x1 (rect_x1 r) - max x0 (rect_x0 r) > 0
            \<and> \<bar>rect_y0 r - y1\<bar> < 5)))
   \<and> (\<forall>a b k. a - b = of_int k / 2 ^ 1074 \<longrightarrow>
         (float_greater (float_sub a b) 0 \<longleftrightarrow> a - b > 0))
   \<and> (\<forall>x0 y0 x1 y1 pre r post.
         float_greater (float_sub (min x1 (rect_x1 r)) (max x0 (rect_x0 r))) 0
           \<and> float_less (float_abs (float_sub (rect_y0 r) y1)) 5 \<longrightarrow>
         scan_rects (x0, y0, x1, y1) (pre @ r # post)
         \<and> scan_rects (x0, y0, x1, y1) (pre @ r # post) = scan_rects (x0, y0, x1, y1) (pre @ [r]))"
proof (intro conjI allI impI)
  show "line_is_underlined drawings span_bboxes \<longleftrightarrow>
      (\<exists>x0 y0 x1 y1. line_bbox span_bboxes = Some (x0, y0, x1, y1) \<and>
         (\<exists>d r. d \<in> set drawings \<and> drawing_type d = Some ''f'' \<and> Re r \<in> set (drawing_items d)
            \<and> rect_height r < 5
            \<and> float_greater (float_sub (min x1 (rect_x1 r)) (max x0 (rect_x0 r))) 0
            \<and> float_less (float_abs (float_sub (rect_y0 r) y1)) 5))"
    by (rule underlined_iff)
next
  assume "line_is_underlined drawings span_bboxes"
  then obtain x0 y0 x1 y1 d r where w: "line_bbox span_bboxes = Some (x0, y0, x1, y1)"
      "d \<in> set drawings" "drawing_type d = Some ''f''" "Re r \<in> set (drawing_items d)"
      "rect_height r < 5"
      "float_greater (float_sub (min x1 (rect_x1 r)) (max x0 (rect_x0 r))) 0"
      "float_less (float_abs (float_sub (rect_y0 r) y1)) 5"
    unfolding underlined_iff by blast
  have "min x1 (rect_x1 r) - max x0 (rect_x0 r) > 0"
    using w(6) unfolding float_sub_def by (rule float_greater_0)
  moreover have "\<bar>rect_y0 r - y1\<bar> < 5"
    using w(7) unfolding float_sub_def by (rule float_less_abs_5)
  ultimately show "\<exists>x0 y0 x1 y1. line_bbox span_bboxes = Some (x0, y0, x1, y1) \<and>
         (\<exists>d r. d \<in> set drawings \<and> drawing_type d = Some ''f'' \<and> Re r \<in> set (drawing_items d)
            \<and> rect_height r < 5
            \<and> min x1 (rect_x1 r) - max x0 (rect_x0 r) > 0
            \<and> \<bar>rect_y0 r - y1\<bar> < 5)"
    using w(1-5) by blast
next
  fix a b :: real and k :: int
  assume "a - b = of_int k / 2 ^ 1074"
  then show "float_greater (float_sub a b) 0 \<longleftrightarrow> a - b > 0"
    unfolding float_sub_def by (rule float_greater_0_multiple)
next
  fix x0 y0 x1 y1 :: real and pre post :: "rect list" and r :: rect
  assume fits: "float_greater (float_sub (min x1 (rect_x1 r)) (max x0 (rect_x0 r))) 0
           \<and> float_less (float_abs (float_sub (rect_y0 r) y1)) 5"
  then show "scan_rects (x0, y0, x1, y1) (pre @ r # post)"
    by (subst scan_rects_iff) auto
  from fits show
    "scan_rects (x0, y0, x1, y1) (pre @ r # post) = scan_rects (x0, y0, x1, y1) (pre @ [r])"
    by (rule scan_rects_first)
qed

theorem underline_detection_witness:
  "line_bbox line_spans = Some (10, 9, 90, 20)
   \<and> float_sub 90 10 = Finite 80
   \<and> float_sub 21 20 = Finite 1
   \<and> line_is_underlined page_drawings line_spans
   \<and> scan_rects (10, 9, 90, 20)
       ([] @ \<lparr>rect_x0 = 10, rect_y0 = 21, rect_x1 = 90, rect_y1 = 22, rect_height = 1\<rparr>
          # [\<lparr>rect_x0 = 0, rect_y0 = 0, rect_x1 = 200, rect_y1 = 50, rect_height = 50\<rparr>])"
proof -
  let ?r = "\<lparr>rect_x0 = 10, rect_y0 = 21, rect_x1 = 90, rect_y1 = 22, rect_height = 1\<rparr>"
  have b: "line_bbox line_spans = Some (10, 9, 90, 20)"
    by (simp add: line_bbox_def line_spans_def)
  have s1: "float_sub 90 10 = Finite 80" using to_float_80 by (simp add: float_sub_def)
  have s2: "float_sub 21 20 = Finite 1" using to_float_1 by (simp add: float_sub_def)
  have fits: "float_greater (float_sub (min 90 (rect_x1 ?r)) (max 10 (rect_x0 ?r))) 0
      \<and> float_less (float_abs (float_sub (rect_y0 ?r) 20)) 5"
    by (simp add: s1 s2)
  have ex: "\<exists>d r. d \<in> set page_drawings \<and> drawing_type d = Some ''f''
          \<and> Re r \<in> set (drawing_items d) \<and> rect_height r < 5
          \<and> float_greater (float_sub (min 90 (rect_x1 r)) (max 10 (rect_x0 r))) 0
          \<and> float_less (float_abs (float_sub (rect_y0 r) 20)) 5"
    using fits
    by (intro exI [of _ "hd page_drawings"] exI [of _ ?r]) (simp add: page_drawings_def)
  have u: "line_is_underlined page_drawings line_spans"
    using underline_detection [of page_drawings line_spans] b ex by blast
  have sc: "scan_rects (10, 9, 90, 20)
       ([] @ ?r # [\<lparr>rect_x0 = 0, rect_y0 = 0, rect_x1 = 200, rect_y1 = 50, rect_height = 50\<rparr>])"
    using underline_detection [of page_drawings line_spans] fits by blast
  show ?thesis using b s1 s2 u sc by simp
qed

section \<open>The loop never raises\<close>

lemma for_loop_append:
  "for_loop r rg es (xs @ ys) st =
     (case for_loop r rg es xs st of Inl e \<Rightarrow> Inl e | Inr st' \<Rightarrow> for_loop r rg es ys st')"
  by (induction xs arbitrary: st) (auto split: sum.splits)

lemma state_before_0: "state_before g es r 0 = Inr (initial_builder g r)"
  by (simp add: state_before_def)

lemma state_before_Suc:
  assumes "i < length es"
  shows "state_before g es r (Suc i) =
     (case state_before g es r i of Inl e \<Rightarrow> Inl e
      | Inr st \<Rightarrow> loop_body r (regular_font_size es) es i (es ! i) st)"
proof -
  have "take (Suc i) (enumerate 0 es) = take i (enumerate 0 es) @ [(i, es ! i)]"
    using assms by (simp add: take_Suc_conv_app_nth nth_enumerate_eq)
  then show ?thesis
    by (simp add: state_before_def for_loop_append split: sum.splits)
qed

lemma state_before_length: "state_before g es r (length es) = run_loop g es r"
  by (simp add: state_before_def run_loop_def)

lemma attrs_of_add_node:
  "attrs_of (add_node g n a) m =
     (if m = n then Some (update_attrs (case attrs_of g n of None \<Rightarrow> no_attrs | Some b \<Rightarrow> b) a)
      else attrs_of g m)"
  by (simp add: attrs_of_def add_node_def update_conv')

lemma node_ids_add_node:
  "node_ids (add_node g n a) = (if n \<in> set (node_ids g) then node_ids g else node_ids g @ [n])"
  by (simp add: node_ids_def add_node_def update_keys)

lemma edges_add_node: "edges (add_node g n a) = edges g"
  by (simp add: add_node_def)

lemma attrs_of_None_iff: "attrs_of g n = None \<longleftrightarrow> n \<notin> set (node_ids g)"
  by (simp add: attrs_of_def node_ids_def map_of_eq_None_iff)

lemma attrs_of_Some_ex: "n \<in> set (node_ids g) \<Longrightarrow> \<exists>a. attrs_of g n = Some a"
  using attrs_of_None_iff [of g n] by (cases "attrs_of g n") auto

lemma ensure_node_present: "n \<in> fst ` set ns \<Longrightarrow> ensure_node n ns = ns"
  by (auto simp: ensure_node_def map_of_eq_None_iff split: option.splits)

lemma nodes_add_edge:
  "u \<in> set (node_ids g) \<Longrightarrow> v \<in> set (node_ids g) \<Longrightarrow> nodes (add_edge g u v) = nodes g"
  by (simp add: add_edge_def node_ids_def ensure_node_present)

lemma edges_add_edge:
  "edges (add_edge g u v) = (if (u, v) \<in> set (edges g) then edges g else edges g @ [(u, v)])"
  by (simp add: add_edge_def)

lemma attrs_complete_new:
  "attrs_complete (update_attrs old
      \<lparr>level = Some l, content = Some c, font_size = Some f, is_underlined = Some u\<rparr>)"
  by (simp add: attrs_complete_def update_attrs_def)

lemma update_attrs_all:
  "update_attrs old \<lparr>level = Some l, content = Some c, font_size = Some f, is_underlined = Some u\<rparr>
     = \<lparr>level = Some l, content = Some c, font_size = Some f, is_underlined = Some u\<rparr>"
  by (simp add: update_attrs_def)

lemma level_of_add_node:
  "level_of (add_node g t \<lparr>level = Some l, content = Some c, font_size = Some f,
                           is_underlined = Some u\<rparr>) n
     = (if n = t then Some l else level_of g n)"
  by (simp add: level_of_def attrs_of_add_node update_attrs_all)

lemma builder_ok_initial: "builder_ok r (initial_builder DiGraph r)"
  by (auto simp: builder_ok_def initial_builder_def DiGraph_def node_ids_def attrs_of_def
      add_node_def update_attrs_def no_attrs_def attrs_complete_def split: if_splits)

lemma pop_stack_take:
  assumes "\<forall>n \<in> set stack. \<exists>a cfs. attrs_of g n = Some a \<and> font_size a = Some cfs"
  shows "\<exists>k \<le> length stack. pop_stack r g fs ul stack = Inr (take k stack)"
  using assms
proof (induction stack rule: rev_induct)
  case Nil
  show ?case by (simp add: pop_stack_Nil)
next
  case (snoc x xs)
  from snoc.prems obtain a cfs where a: "attrs_of g x = Some a" "font_size a = Some cfs"
    by auto
  from snoc obtain k where k: "k \<le> length xs" "pop_stack r g fs ul xs = Inr (take k xs)"
    by auto
  have "pop_stack r g fs ul (xs @ [x]) = Inr (xs @ [x])
        \<or> pop_stack r g fs ul (xs @ [x]) = pop_stack r g fs ul xs"
    unfolding pop_stack_snoc [OF a] by auto
  then show ?case
  proof
    assume "pop_stack r g fs ul (xs @ [x]) = Inr (xs @ [x])"
    then show ?thesis by (intro exI [of _ "length (xs @ [x])"]) simp
  next
    assume "pop_stack r g fs ul (xs @ [x]) = pop_stack r g fs ul xs"
    with k show ?thesis by (intro exI [of _ k]) simp
  qed
qed

lemma builder_ok_stack_attrs:
  assumes "builder_ok r st"
  shows "\<forall>n \<in> set (node_stack st). \<exists>a cfs. attrs_of (graph st) n = Some a \<and> font_size a = Some cfs"
proof
  fix n assume "n \<in> set (node_stack st)"
  with assms have "n \<in> set (node_ids (graph st))" by (auto simp: builder_ok_def)
  then obtain a where a: "attrs_of (graph st) n = Some a" using attrs_of_Some_ex by blast
  with assms have "attrs_complete a" by (auto simp: builder_ok_def)
  with a show "\<exists>a cfs. attrs_of (graph st) n = Some a \<and> font_size a = Some cfs"
    by (auto simp: attrs_complete_def)
qed

lemma select_parent_ok:
  assumes "builder_ok r st"
  shows "\<exists>p stk. select_parent r (graph st) fs ul (node_stack st) = Inr (p, stk)
           \<and> stk \<noteq> [] \<and> p = last stk \<and> set stk \<subseteq> set (node_ids (graph st))"
proof -
  obtain k where k: "pop_stack r (graph st) fs ul (node_stack st) = Inr (take k (node_stack st))"
    using pop_stack_take [OF builder_ok_stack_attrs [OF assms]] by blast
  have sub: "set (take k (node_stack st)) \<subseteq> set (node_ids (graph st))"
    using assms set_take_subset [of k "node_stack st"] by (auto simp: builder_ok_def)
  have r: "r \<in> set (node_ids (graph st))" using assms by (simp add: builder_ok_def)
  show ?thesis
    using sub r by (simp add: select_parent_def k)
qed

lemma insert_heading_ok:
  assumes "builder_ok r st"
  shows "\<exists>st'. insert_heading r st t fs ul = Inr st' \<and> builder_ok r st'
           \<and> first_bold_skipped st' = first_bold_skipped st
           \<and> nodes_added st' = Suc (nodes_added st)"
proof -
  obtain p stk where sp: "select_parent r (graph st) fs ul (node_stack st) = Inr (p, stk)"
      "stk \<noteq> []" "p = last stk" "set stk \<subseteq> set (node_ids (graph st))"
    using select_parent_ok [OF assms] by blast
  define g1 where "g1 = add_node (graph st) t
      \<lparr>level = Some (length stk), content = Some '''', font_size = Some fs, is_underlined = Some ul\<rparr>"
  have ids1: "set (node_ids g1) = insert t (set (node_ids (graph st)))"
    by (auto simp: g1_def node_ids_add_node)
  have "last stk \<in> set stk" using sp(2) by simp
  with sp(4) have "last stk \<in> set (node_ids (graph st))" by blast
  then have p1: "p \<in> set (node_ids g1)" using sp(3) ids1 by simp
  have t1: "t \<in> set (node_ids g1)" using ids1 by simp
  have nodes2: "nodes (add_edge g1 p t) = nodes g1"
    using nodes_add_edge [OF p1 t1] .
  have d1: "distinct (node_ids g1)"
    using assms by (auto simp: g1_def node_ids_add_node builder_ok_def)
  have c1: "\<forall>n a. attrs_of g1 n = Some a \<longrightarrow> attrs_complete a"
    using assms by (auto simp: g1_def attrs_of_add_node builder_ok_def attrs_complete_new
        split: if_splits)
  have "builder_ok r (st\<lparr>graph := add_edge g1 p t, current_node := t,
           node_stack := stk @ [t], nodes_added := nodes_added st + 1\<rparr>)"
    using assms d1 c1 ids1 sp(4)
    by (auto simp: builder_ok_def node_ids_def attrs_of_def nodes2)
  then show ?thesis
    by (simp add: insert_heading_def sp(1) g1_def)
qed

lemma add_content_ok:
  assumes "builder_ok r st"
  shows "\<exists>st' a c. add_content st t = Inr st' \<and> builder_ok r st'
           \<and> attrs_of (graph st) (current_node st) = Some a \<and> content a = Some c
           \<and> st' = st\<lparr>graph := (graph st)\<lparr>nodes :=
                          AList.update (current_node st)
                            (a\<lparr>content := Some (c @ '' '' @ t)\<rparr>) (nodes (graph st))\<rparr>\<rparr>"
proof -
  from assms have "current_node st \<in> set (node_ids (graph st))" by (simp add: builder_ok_def)
  then obtain a where a: "attrs_of (graph st) (current_node st) = Some a"
    using attrs_of_Some_ex by blast
  with assms have ca: "attrs_complete a" by (auto simp: builder_ok_def)
  then obtain c where c: "content a = Some c" by (auto simp: attrs_complete_def)
  define st' where "st' = st\<lparr>graph := (graph st)\<lparr>nodes :=
                          AList.update (current_node st)
                            (a\<lparr>content := Some (c @ '' '' @ t)\<rparr>) (nodes (graph st))\<rparr>\<rparr>"
  have ids: "node_ids (graph st') = node_ids (graph st)"
    using \<open>current_node st \<in> set (node_ids (graph st))\<close>
    by (simp add: st'_def node_ids_def update_keys)
  have at: "attrs_of (graph st') n =
      (if n = current_node st then Some (a\<lparr>content := Some (c @ '' '' @ t)\<rparr>)
       else attrs_of (graph st) n)" for n
    by (simp add: st'_def attrs_of_def update_conv')
  have "attrs_complete (a\<lparr>content := Some (c @ '' '' @ t)\<rparr>)"
    using ca by (simp add: attrs_complete_def)
  then have ok: "builder_ok r st'"
    using assms unfolding builder_ok_def ids
    by (auto simp: at) (auto simp: st'_def)
  have "add_content st t = Inr st'"
    using a c by (simp add: add_content_def attrs_of_def st'_def)
  with ok a c show ?thesis unfolding st'_def by blast
qed

lemma headings_upto_Suc:
  "headings_upto es (Suc i) =
     headings_upto es i @ (if heading_at es i then [elem_text (es ! i)] else [])"
  by (simp add: headings_upto_def)

lemma builder_ok_skip: "builder_ok r (st\<lparr>first_bold_skipped := b\<rparr>) = builder_ok r st"
  by (simp add: builder_ok_def)

lemma content_of_add_content:
  assumes "builder_ok r st"
  shows "\<exists>st' c. add_content st t = Inr st' \<and> builder_ok r st'
           \<and> content_of (graph st) (current_node st) = Some c
           \<and> content_of (graph st') (current_node st) = Some (c @ '' '' @ t)
           \<and> (\<forall>n. n \<noteq> current_node st \<longrightarrow> attrs_of (graph st') n = attrs_of (graph st) n)
           \<and> (\<forall>n. level_of (graph st') n = level_of (graph st) n)
           \<and> node_ids (graph st') = node_ids (graph st)
           \<and> edges (graph st') = edges (graph st)
           \<and> node_stack st' = node_stack st \<and> current_node st' = current_node st
           \<and> first_bold_skipped st' = first_bold_skipped st
           \<and> nodes_added st' = nodes_added st"
proof -
  obtain st' a c where s: "add_content st t = Inr st'" "builder_ok r st'"
      "attrs_of (graph st) (current_node st) = Some a" "content a = Some c"
      "st' = st\<lparr>graph := (graph st)\<lparr>nodes :=
                          AList.update (current_node st)
                            (a\<lparr>content := Some (c @ '' '' @ t)\<rparr>) (nodes (graph st))\<rparr>\<rparr>"
    using add_content_ok [OF assms] by blast
  have at: "attrs_of (graph st') n =
      (if n = current_node st then Some (a\<lparr>content := Some (c @ '' '' @ t)\<rparr>)
       else attrs_of (graph st) n)" for n
    by (simp add: s(5) attrs_of_def update_conv')
  have cur: "current_node st \<in> set (node_ids (graph st))"
    using assms by (simp add: builder_ok_def)
  have ids: "node_ids (graph st') = node_ids (graph st)"
    using cur by (simp add: s(5) node_ids_def update_keys)
  have lv: "level_of (graph st') n = level_of (graph st) n" for n
    using s(3) by (simp add: level_of_def at)
  show ?thesis
    using s(1,2) s(3,4) ids lv
    by (simp add: content_of_def at) (simp add: s(5))
qed

lemma run_basic:
  assumes "i \<le> length es"
  shows "\<exists>st. state_before DiGraph es r i = Inr st \<and> builder_ok r st
           \<and> first_bold_skipped st = (\<exists>e \<in> set (take i es). elem_is_bold e)
           \<and> nodes_added st = length (headings_upto es i)"
  using assms
proof (induction i)
  case 0
  show ?case
    by (simp add: state_before_0 builder_ok_initial headings_upto_def)
       (simp add: initial_builder_def)
next
  case (Suc i)
  then have i: "i < length es" by simp
  from Suc obtain st where st: "state_before DiGraph es r i = Inr st" "builder_ok r st"
      "first_bold_skipped st = (\<exists>e \<in> set (take i es). elem_is_bold e)"
      "nodes_added st = length (headings_upto es i)"
    by auto
  have tk: "take (Suc i) es = take i es @ [es ! i]"
    using i by (simp add: take_Suc_conv_app_nth)
  have step: "state_before DiGraph es r (Suc i) =
      loop_body r (regular_font_size es) es i (es ! i) st"
    by (simp add: state_before_Suc [OF i] st(1))
  consider (skip) "elem_is_bold (es ! i)" "\<not> first_bold_skipped st"
    | (num) "\<not> (elem_is_bold (es ! i) \<and> \<not> first_bold_skipped st)"
        "numbered_item (elem_text (es ! i))"
    | (head) "\<not> (elem_is_bold (es ! i) \<and> \<not> first_bold_skipped st)"
        "\<not> numbered_item (elem_text (es ! i))" "elem_is_bold (es ! i)"
        "is_heading (regular_font_size es) es i (es ! i)"
    | (cont) "\<not> (elem_is_bold (es ! i) \<and> \<not> first_bold_skipped st)"
        "\<not> numbered_item (elem_text (es ! i))"
        "\<not> (elem_is_bold (es ! i) \<and> is_heading (regular_font_size es) es i (es ! i))"
    by blast
  then show ?case
  proof cases
    case skip
    have h: "\<not> heading_at es i" using skip st(3) by (simp add: heading_at_def)
    have "loop_body r (regular_font_size es) es i (es ! i) st = Inr (st\<lparr>first_bold_skipped := True\<rparr>)"
      using skip by (simp add: loop_body_def)
    then show ?thesis
      using skip st h by (simp add: step builder_ok_skip tk headings_upto_Suc)
  next
    case num
    have h: "\<not> heading_at es i" using num by (simp add: heading_at_def)
    have "loop_body r (regular_font_size es) es i (es ! i) st = Inr st"
      using num by (auto simp: loop_body_def)
    then show ?thesis
      using num st h by (auto simp: step tk headings_upto_Suc)
  next
    case head
    have h: "heading_at es i" using head st(3) i by (simp add: heading_at_def)
    have lb: "loop_body r (regular_font_size es) es i (es ! i) st =
        insert_heading r st (elem_text (es ! i)) (elem_font_size (es ! i)) (elem_is_underlined (es ! i))"
      using head by (simp add: loop_body_def)
    obtain st' where st': "insert_heading r st (elem_text (es ! i)) (elem_font_size (es ! i))
          (elem_is_underlined (es ! i)) = Inr st'" "builder_ok r st'"
        "first_bold_skipped st' = first_bold_skipped st" "nodes_added st' = Suc (nodes_added st)"
      using insert_heading_ok [OF st(2)] by blast
    show ?thesis
      using head st h st' by (auto simp: step lb tk headings_upto_Suc)
  next
    case cont
    have h: "\<not> heading_at es i" using cont by (auto simp: heading_at_def)
    have lb: "loop_body r (regular_font_size es) es i (es ! i) st = add_content st (elem_text (es ! i))"
      using cont by (auto simp: loop_body_def)
    obtain st' where st': "add_content st (elem_text (es ! i)) = Inr st'" "builder_ok r st'"
        "first_bold_skipped st' = first_bold_skipped st" "nodes_added st' = nodes_added st"
      using content_of_add_content [OF st(2)] by blast
    show ?thesis
      using cont st h st' by (auto simp: step lb tk headings_upto_Suc)
  qed
qed

section \<open>The skips and the heading test\<close>

lemma endswith_colon: "endswith t '':'' \<longleftrightarrow> t \<noteq> [] \<and> last t = CHR '':''"
proof (cases t rule: rev_cases)
  case Nil
  then show ?thesis by (simp add: endswith_def)
next
  case (snoc ys y)
  then show ?thesis by (simp add: endswith_def)
qed

lemma startswith_colon: "startswith t '':'' \<longleftrightarrow> t \<noteq> [] \<and> hd t = CHR '':''"
  by (cases t) (simp_all add: startswith_def)

lemma regular_font_size_find: "regular_font_size es = spec_regular_font_size es"
  by (induction es) (simp_all add: spec_regular_font_size_def)

lemma is_heading_spec:
  "i < length es \<Longrightarrow>
   is_heading (regular_font_size es) es i (es ! i) = spec_qualifies es i"
  by (auto simp: is_heading_def spec_qualifies_def next_starts_with_colon_def endswith_colon
      startswith_colon regular_font_size_find)

lemma numbered_item_iff:
  "numbered_item t \<longleftrightarrow>
     (\<exists>ds ws. t = ds @ ''.'' @ ws \<and> ds \<noteq> [] \<and> (\<forall>c \<in> set ds. py_isdigit c)
        \<and> (\<forall>c \<in> set ws. py_isspace c))"
proof
  assume n: "numbered_item t"
  then obtain c ws where d: "dropWhile py_isdigit t = c # ws" "c = CHR ''.''"
      "list_all py_isspace ws" and ne: "takeWhile py_isdigit t \<noteq> []"
    by (auto simp: numbered_item_def split: list.splits)
  have "t = takeWhile py_isdigit t @ ''.'' @ ws"
    using takeWhile_dropWhile_id [of py_isdigit t] d by simp
  moreover have "\<forall>c \<in> set (takeWhile py_isdigit t). py_isdigit c"
    by (auto dest: set_takeWhileD)
  ultimately show "\<exists>ds ws. t = ds @ ''.'' @ ws \<and> ds \<noteq> [] \<and> (\<forall>c \<in> set ds. py_isdigit c)
        \<and> (\<forall>c \<in> set ws. py_isspace c)"
    using ne d(3) by (auto simp: list_all_iff)
next
  assume "\<exists>ds ws. t = ds @ ''.'' @ ws \<and> ds \<noteq> [] \<and> (\<forall>c \<in> set ds. py_isdigit c)
        \<and> (\<forall>c \<in> set ws. py_isspace c)"
  then obtain ds ws where t: "t = ds @ ''.'' @ ws" "ds \<noteq> []" "\<forall>c \<in> set ds. py_isdigit c"
      "\<forall>c \<in> set ws. py_isspace c"
    by blast
  have nd: "\<not> py_isdigit CHR ''.''" by (simp add: py_isdigit_def)
  have tw: "takeWhile py_isdigit t = ds"
    using t(3) nd by (simp add: t(1) takeWhile_append2)
  have dw: "dropWhile py_isdigit t = ''.'' @ ws"
    using t(3) nd by (simp add: t(1) dropWhile_append2)
  show "numbered_item t"
    using t(2,4) by (simp add: numbered_item_def tw dw list_all_iff)
qed

lemma insert_heading_result:
  assumes "builder_ok r st"
  shows "\<exists>p stk. select_parent r (graph st) fs ul (node_stack st) = Inr (p, stk)
           \<and> stk \<noteq> [] \<and> p = last stk \<and> set stk \<subseteq> set (node_ids (graph st))
           \<and> nodes (add_edge (add_node (graph st) t
                 \<lparr>level = Some (length stk), content = Some '''', font_size = Some fs,
                  is_underlined = Some ul\<rparr>) p t)
               = nodes (add_node (graph st) t
                 \<lparr>level = Some (length stk), content = Some '''', font_size = Some fs,
                  is_underlined = Some ul\<rparr>)
           \<and> insert_heading r st t fs ul =
               Inr (st\<lparr>graph := add_edge (add_node (graph st) t
                          \<lparr>level = Some (length stk), content = Some '''', font_size = Some fs,
                           is_underlined = Some ul\<rparr>) p t,
                       current_node := t, node_stack := stk @ [t],
                       nodes_added := nodes_added st + 1\<rparr>)"
proof -
  obtain p stk where sp: "select_parent r (graph st) fs ul (node_stack st) = Inr (p, stk)"
      "stk \<noteq> []" "p = last stk" "set stk \<subseteq> set (node_ids (graph st))"
    using select_parent_ok [OF assms] by blast
  define g1 where "g1 = add_node (graph st) t
      \<lparr>level = Some (length stk), content = Some '''', font_size = Some fs, is_underlined = Some ul\<rparr>"
  have ids1: "set (node_ids g1) = insert t (set (node_ids (graph st)))"
    by (auto simp: g1_def node_ids_add_node)
  have "last stk \<in> set stk" using sp(2) by simp
  with sp(4) have "last stk \<in> set (node_ids (graph st))" by blast
  then have p1: "p \<in> set (node_ids g1)" using sp(3) ids1 by simp
  have t1: "t \<in> set (node_ids g1)" using ids1 by simp
  have nodes2: "nodes (add_edge g1 p t) = nodes g1"
    using nodes_add_edge [OF p1 t1] .
  show ?thesis
    using sp nodes2 unfolding g1_def by (simp add: insert_heading_def)
qed

section \<open>Parent selection in a run\<close>

lemma stored_attrs:
  assumes "builder_ok r st"
  shows "\<forall>n \<in> set (node_stack st). \<exists>a. attrs_of (graph st) n = Some a
           \<and> font_size a = Some (font_size_of (graph st) n)
           \<and> (case is_underlined a of None \<Rightarrow> False | Some b \<Rightarrow> b) = underlined_of (graph st) n"
proof
  fix n assume "n \<in> set (node_stack st)"
  with assms have "n \<in> set (node_ids (graph st))" by (auto simp: builder_ok_def)
  then obtain a where a: "attrs_of (graph st) n = Some a" using attrs_of_Some_ex by blast
  with assms have "attrs_complete a" by (auto simp: builder_ok_def)
  then obtain f where "font_size a = Some f" by (auto simp: attrs_complete_def)
  with a show "\<exists>a. attrs_of (graph st) n = Some a
           \<and> font_size a = Some (font_size_of (graph st) n)
           \<and> (case is_underlined a of None \<Rightarrow> False | Some b \<Rightarrow> b) = underlined_of (graph st) n"
    by (simp add: font_size_of_def underlined_of_def)
qed

text \<open>
  Claim C2: at every qualifying heading of a run from a new graph, the parent is the one
  the walk of the specification selects (\<open>spec_parent_stack\<close>, on the font sizes and
  underline flags stored in the graph): stop at the root or at a strictly larger stored
  size; at equal sizes pop on equal underline flags, stop when the top is underlined and
  the new heading is not, pop when the top is not underlined and the new heading is; pop a
  strictly smaller top; an emptied stack becomes the root alone. The iteration leaves the
  stack of that walk with the heading pushed on it, makes the heading the current node
  at the level that is the length of the walk's stack, and adds the edge from the top of
  the walk's stack to the heading and no other edge. Lines 177 to 208 agree with the walk
  on every stack whose entries are nodes with a stored font size.
\<close>

theorem parent_selection_follows_specification:
  assumes "heading_at elements i"
  shows "(\<exists>st st' walk.
            state_before DiGraph elements r i = Inr st
          \<and> state_before DiGraph elements r (Suc i) = Inr st'
          \<and> (\<forall>n \<in> set (node_stack st). \<exists>a. attrs_of (graph st) n = Some a
                \<and> font_size a = Some (font_size_of (graph st) n)
                \<and> (case is_underlined a of None \<Rightarrow> False | Some b \<Rightarrow> b)
                    = underlined_of (graph st) n)
          \<and> walk = spec_parent_stack r (font_size_of (graph st)) (underlined_of (graph st))
                     (elem_font_size (elements ! i)) (elem_is_underlined (elements ! i))
                     (node_stack st)
          \<and> select_parent r (graph st) (elem_font_size (elements ! i))
               (elem_is_underlined (elements ! i)) (node_stack st) = Inr (last walk, walk)
          \<and> node_stack st' = walk @ [elem_text (elements ! i)]
          \<and> current_node st' = elem_text (elements ! i)
          \<and> elem_text (elements ! i) \<in> set (node_ids (graph st'))
          \<and> level_of (graph st') (elem_text (elements ! i)) = Some (length walk)
          \<and> set (edges (graph st'))
              = insert (last walk, elem_text (elements ! i)) (set (edges (graph st))))
     \<and> (\<forall>g stack fs_of ul_of fs ul.
           (\<forall>n \<in> set stack. \<exists>a. attrs_of g n = Some a \<and> font_size a = Some (fs_of n)
               \<and> (case is_underlined a of None \<Rightarrow> False | Some b \<Rightarrow> b) = ul_of n) \<longrightarrow>
           select_parent r g fs ul stack =
             Inr (last (spec_parent_stack r fs_of ul_of fs ul stack),
                  spec_parent_stack r fs_of ul_of fs ul stack))"
proof (intro conjI allI impI)
  define t where "t = elem_text (elements ! i)"
  define fs where "fs = elem_font_size (elements ! i)"
  define ul where "ul = elem_is_underlined (elements ! i)"
  from assms have i: "i < length elements" by (simp add: heading_at_def)
  obtain st where st: "state_before DiGraph elements r i = Inr st" "builder_ok r st"
      "first_bold_skipped st = (\<exists>e \<in> set (take i elements). elem_is_bold e)"
    using run_basic [of i elements r] i by auto
  define walk where "walk = spec_parent_stack r (font_size_of (graph st))
      (underlined_of (graph st)) fs ul (node_stack st)"
  have sp: "select_parent r (graph st) fs ul (node_stack st) = Inr (last walk, walk)"
    unfolding walk_def by (rule select_parent_spec [OF stored_attrs [OF st(2)]])
  have lb: "loop_body r (regular_font_size elements) elements i (elements ! i) st =
      insert_heading r st t fs ul"
    using assms st(3) by (simp add: loop_body_def heading_at_def t_def fs_def ul_def)
  have step: "state_before DiGraph elements r (Suc i) = insert_heading r st t fs ul"
    by (simp add: state_before_Suc [OF i] st(1) lb)
  obtain p stk where ins:
      "select_parent r (graph st) fs ul (node_stack st) = Inr (p, stk)"
      "nodes (add_edge (add_node (graph st) t
                 \<lparr>level = Some (length stk), content = Some '''', font_size = Some fs,
                  is_underlined = Some ul\<rparr>) p t)
               = nodes (add_node (graph st) t
                 \<lparr>level = Some (length stk), content = Some '''', font_size = Some fs,
                  is_underlined = Some ul\<rparr>)"
      "insert_heading r st t fs ul =
               Inr (st\<lparr>graph := add_edge (add_node (graph st) t
                          \<lparr>level = Some (length stk), content = Some '''', font_size = Some fs,
                           is_underlined = Some ul\<rparr>) p t,
                       current_node := t, node_stack := stk @ [t],
                       nodes_added := nodes_added st + 1\<rparr>)"
    using insert_heading_result [OF st(2)] by blast
  have "Inr (p, stk) = (Inr (last walk, walk) :: error + string \<times> string list)"
    by (rule trans [OF ins(1) [symmetric] sp])
  then have ps: "p = last walk" "stk = walk" by blast+
  define g1 where "g1 = add_node (graph st) t
      \<lparr>level = Some (length walk), content = Some '''', font_size = Some fs, is_underlined = Some ul\<rparr>"
  define st' where "st' = st\<lparr>graph := add_edge g1 (last walk) t, current_node := t,
      node_stack := walk @ [t], nodes_added := nodes_added st + 1\<rparr>"
  have st': "state_before DiGraph elements r (Suc i) = Inr st'"
    by (simp add: step ins(3) ps st'_def g1_def)
  have nodes': "nodes (graph st') = nodes g1"
    using ins(2) by (simp add: st'_def g1_def ps)
  have "t \<in> set (node_ids g1)" by (simp add: g1_def node_ids_add_node)
  then have mem: "t \<in> set (node_ids (graph st'))"
    by (simp add: node_ids_def nodes')
  have lv: "level_of (graph st') t = Some (length walk)"
    by (simp add: level_of_def attrs_of_def nodes')
       (simp add: g1_def level_of_add_node [unfolded level_of_def attrs_of_def])
  have ed: "set (edges (graph st')) = insert (last walk, t) (set (edges (graph st)))"
    by (auto simp: st'_def edges_add_edge g1_def edges_add_node)
  show "\<exists>st st' walk.
            state_before DiGraph elements r i = Inr st
          \<and> state_before DiGraph elements r (Suc i) = Inr st'
          \<and> (\<forall>n \<in> set (node_stack st). \<exists>a. attrs_of (graph st) n = Some a
                \<and> font_size a = Some (font_size_of (graph st) n)
                \<and> (case is_underlined a of None \<Rightarrow> False | Some b \<Rightarrow> b)
                    = underlined_of (graph st) n)
          \<and> walk = spec_parent_stack r (font_size_of (graph st)) (underlined_of (graph st))
                     (elem_font_size (elements ! i)) (elem_is_underlined (elements ! i))
                     (node_stack st)
          \<and> select_parent r (graph st) (elem_font_size (elements ! i))
               (elem_is_underlined (elements ! i)) (node_stack st) = Inr (last walk, walk)
          \<and> node_stack st' = walk @ [elem_text (elements ! i)]
          \<and> current_node st' = elem_text (elements ! i)
          \<and> elem_text (elements ! i) \<in> set (node_ids (graph st'))
          \<and> level_of (graph st') (elem_text (elements ! i)) = Some (length walk)
          \<and> set (edges (graph st'))
              = insert (last walk, elem_text (elements ! i)) (set (edges (graph st)))"
    using st(1) st' sp mem lv ed stored_attrs [OF st(2)]
    unfolding walk_def t_def fs_def ul_def
    by (intro exI [of _ st] exI [of _ st'] exI [of _ "spec_parent_stack r (font_size_of (graph st))
          (underlined_of (graph st)) (elem_font_size (elements ! i))
          (elem_is_underlined (elements ! i)) (node_stack st)"])
       (simp add: st'_def walk_def fs_def ul_def t_def)
next
  fix g stack fs_of ul_of fs ul
  assume "\<forall>n \<in> set stack. \<exists>a. attrs_of g n = Some a \<and> font_size a = Some (fs_of n)
               \<and> (case is_underlined a of None \<Rightarrow> False | Some b \<Rightarrow> b) = ul_of n"
  then show "select_parent r g fs ul stack =
             Inr (last (spec_parent_stack r fs_of ul_of fs ul stack),
                  spec_parent_stack r fs_of ul_of fs ul stack)"
    by (rule select_parent_spec)
qed

theorem parent_selection_follows_specification_witness:
  "heading_at popping_elements 4
   \<and> (\<exists>st st'. state_before DiGraph popping_elements ''doc'' 4 = Inr st
         \<and> state_before DiGraph popping_elements ''doc'' (Suc 4) = Inr st'
         \<and> node_stack st = [''doc'', ''Part'', ''Item'']
         \<and> spec_parent_stack ''doc'' (font_size_of (graph st)) (underlined_of (graph st))
              12 True (node_stack st) = [''doc'', ''Part'']
         \<and> node_stack st' = [''doc'', ''Part'', ''Next'']
         \<and> current_node st' = ''Next''
         \<and> level_of (graph st') ''Next'' = Some 2
         \<and> set (edges (graph st')) = insert (''Part'', ''Next'') (set (edges (graph st))))"
proof -
  let ?st = "\<lparr>graph =
      \<lparr>nodes =
         [(''doc'', \<lparr>level = Some 0, content = Some [], font_size = Some 100,
                     is_underlined = Some False\<rparr>),
          (''Part'', \<lparr>level = Some 1, content = Some [], font_size = Some 20,
                      is_underlined = Some False\<rparr>),
          (''Item'', \<lparr>level = Some 2, content = Some '' text'', font_size = Some 12,
                      is_underlined = Some False\<rparr>)],
       edges = [(''doc'', ''Part''), (''Part'', ''Item'')]\<rparr>,
      current_node = ''Item'', node_stack = [''doc'', ''Part'', ''Item''],
      first_bold_skipped = True, nodes_added = 2\<rparr>"
  have h: "heading_at popping_elements 4"
    by (simp add: heading_at_def popping_elements_def is_heading_def numbered_item_def
        py_isdigit_def)
  have s: "state_before DiGraph popping_elements ''doc'' 4 = Inr ?st"
    by (simp add: state_before_def popping_elements_def builder_defs eval_nat_numeral)
  have e: "elem_text (popping_elements ! 4) = ''Next''"
      "elem_font_size (popping_elements ! 4) = 12"
      "elem_is_underlined (popping_elements ! 4) = True"
    by (simp_all add: popping_elements_def)
  have w: "spec_parent_stack ''doc'' (font_size_of (graph ?st)) (underlined_of (graph ?st))
              12 True (node_stack ?st) = [''doc'', ''Part'']"
    by (simp add: spec_parent_stack.simps font_size_of_def underlined_of_def attrs_of_def)
  from parent_selection_follows_specification [OF h, of "''doc''"]
  obtain st st' walk where t: "state_before DiGraph popping_elements ''doc'' 4 = Inr st"
      "state_before DiGraph popping_elements ''doc'' (Suc 4) = Inr st'"
      "walk = spec_parent_stack ''doc'' (font_size_of (graph st)) (underlined_of (graph st))
                     (elem_font_size (popping_elements ! 4))
                     (elem_is_underlined (popping_elements ! 4)) (node_stack st)"
      "node_stack st' = walk @ [elem_text (popping_elements ! 4)]"
      "current_node st' = elem_text (popping_elements ! 4)"
      "level_of (graph st') (elem_text (popping_elements ! 4)) = Some (length walk)"
      "set (edges (graph st'))
         = insert (last walk, elem_text (popping_elements ! 4)) (set (edges (graph st)))"
    by blast
  from t(1) s have st: "st = ?st" by simp
  have walk: "walk = [''doc'', ''Part'']"
    using t(3) w unfolding st e by simp
  show ?thesis
    using h t(1,2,4,5,6,7) w unfolding walk e
    by (intro conjI exI [of _ st] exI [of _ st']) (simp_all add: st)
qed

text \<open>
  Claim C3: the reference size is the font size of the first non-bold element of the
  sequence, 8 when every element is bold; and a bold element that a bold element precedes
  and that is no standalone number is promoted to a heading if and only if its font
  size strictly exceeds the reference, or its text ends with a colon, or the next element
  exists, is not bold and starts with a colon. Promoted: its text is a node of the graph
  with the element's font size and underline flag and empty content, the target of an
  edge, the current node and the top of the stack, and one more node is counted. Not
  promoted: nodes, edges, levels, stack and current node stay as they are and the text is
  appended to the content of the current node. The content of the current node is empty
  after the iteration exactly when the element was promoted.
\<close>

theorem heading_qualification:
  assumes "i < length elements"
    and "elem_is_bold (elements ! i)"
    and "\<exists>e \<in> set (take i elements). elem_is_bold e"
    and "\<not> numbered_item (elem_text (elements ! i))"
  shows "regular_font_size elements = spec_regular_font_size elements
     \<and> (\<exists>st st'. state_before DiGraph elements r i = Inr st
           \<and> state_before DiGraph elements r (Suc i) = Inr st'
           \<and> (nodes_added st' = Suc (nodes_added st) \<longleftrightarrow> spec_qualifies elements i)
           \<and> (content_of (graph st') (current_node st') = Some [] \<longleftrightarrow> spec_qualifies elements i)
           \<and> (spec_qualifies elements i \<longrightarrow>
                 insert_heading r st (elem_text (elements ! i)) (elem_font_size (elements ! i))
                   (elem_is_underlined (elements ! i)) = Inr st'
                 \<and> elem_text (elements ! i) \<in> set (node_ids (graph st'))
                 \<and> current_node st' = elem_text (elements ! i)
                 \<and> node_stack st' \<noteq> []
                 \<and> last (node_stack st') = elem_text (elements ! i)
                 \<and> (\<exists>l. attrs_of (graph st') (elem_text (elements ! i))
                        = Some \<lparr>level = Some l, content = Some [],
                                font_size = Some (elem_font_size (elements ! i)),
                                is_underlined = Some (elem_is_underlined (elements ! i))\<rparr>)
                 \<and> (\<exists>p. (p, elem_text (elements ! i)) \<in> set (edges (graph st'))))
           \<and> (\<not> spec_qualifies elements i \<longrightarrow>
                 add_content st (elem_text (elements ! i)) = Inr st'
                 \<and> nodes_added st' = nodes_added st
                 \<and> node_ids (graph st') = node_ids (graph st)
                 \<and> edges (graph st') = edges (graph st)
                 \<and> node_stack st' = node_stack st
                 \<and> current_node st' = current_node st
                 \<and> (\<forall>n. level_of (graph st') n = level_of (graph st) n)
                 \<and> (\<forall>n. n \<noteq> current_node st \<longrightarrow> attrs_of (graph st') n = attrs_of (graph st) n)
                 \<and> (\<exists>c. content_of (graph st) (current_node st) = Some c
                        \<and> content_of (graph st') (current_node st)
                            = Some (c @ '' '' @ elem_text (elements ! i)))))"
proof -
  define t where "t = elem_text (elements ! i)"
  define fs where "fs = elem_font_size (elements ! i)"
  define ul where "ul = elem_is_underlined (elements ! i)"
  obtain st where st: "state_before DiGraph elements r i = Inr st" "builder_ok r st"
      "first_bold_skipped st = (\<exists>e \<in> set (take i elements). elem_is_bold e)"
    using run_basic [of i elements r] assms(1) by auto
  have fbs: "first_bold_skipped st" using st(3) assms(3) by simp
  have step: "state_before DiGraph elements r (Suc i) =
      loop_body r (regular_font_size elements) elements i (elements ! i) st"
    by (simp add: state_before_Suc [OF assms(1)] st(1))
  have lb: "loop_body r (regular_font_size elements) elements i (elements ! i) st =
      (if spec_qualifies elements i then insert_heading r st t fs ul else add_content st t)"
    using assms fbs by (simp add: loop_body_def is_heading_spec t_def fs_def ul_def)
  have "\<exists>st'. state_before DiGraph elements r (Suc i) = Inr st'
           \<and> (nodes_added st' = Suc (nodes_added st) \<longleftrightarrow> spec_qualifies elements i)
           \<and> (content_of (graph st') (current_node st') = Some [] \<longleftrightarrow> spec_qualifies elements i)
           \<and> (spec_qualifies elements i \<longrightarrow>
                 insert_heading r st t fs ul = Inr st'
                 \<and> t \<in> set (node_ids (graph st'))
                 \<and> current_node st' = t
                 \<and> node_stack st' \<noteq> []
                 \<and> last (node_stack st') = t
                 \<and> (\<exists>l. attrs_of (graph st') t
                        = Some \<lparr>level = Some l, content = Some [], font_size = Some fs,
                                is_underlined = Some ul\<rparr>)
                 \<and> (\<exists>p. (p, t) \<in> set (edges (graph st'))))
           \<and> (\<not> spec_qualifies elements i \<longrightarrow>
                 add_content st t = Inr st'
                 \<and> nodes_added st' = nodes_added st
                 \<and> node_ids (graph st') = node_ids (graph st)
                 \<and> edges (graph st') = edges (graph st)
                 \<and> node_stack st' = node_stack st
                 \<and> current_node st' = current_node st
                 \<and> (\<forall>n. level_of (graph st') n = level_of (graph st) n)
                 \<and> (\<forall>n. n \<noteq> current_node st \<longrightarrow> attrs_of (graph st') n = attrs_of (graph st) n)
                 \<and> (\<exists>c. content_of (graph st) (current_node st) = Some c
                        \<and> content_of (graph st') (current_node st) = Some (c @ '' '' @ t)))"
  proof (cases "spec_qualifies elements i")
    case True
    obtain p stk where ins:
        "nodes (add_edge (add_node (graph st) t
                   \<lparr>level = Some (length stk), content = Some '''', font_size = Some fs,
                    is_underlined = Some ul\<rparr>) p t)
                 = nodes (add_node (graph st) t
                   \<lparr>level = Some (length stk), content = Some '''', font_size = Some fs,
                    is_underlined = Some ul\<rparr>)"
        "insert_heading r st t fs ul =
                 Inr (st\<lparr>graph := add_edge (add_node (graph st) t
                            \<lparr>level = Some (length stk), content = Some '''', font_size = Some fs,
                             is_underlined = Some ul\<rparr>) p t,
                         current_node := t, node_stack := stk @ [t],
                         nodes_added := nodes_added st + 1\<rparr>)"
      using insert_heading_result [OF st(2)] by blast
    define g1 where "g1 = add_node (graph st) t
        \<lparr>level = Some (length stk), content = Some '''', font_size = Some fs, is_underlined = Some ul\<rparr>"
    define st' where "st' = st\<lparr>graph := add_edge g1 p t, current_node := t,
        node_stack := stk @ [t], nodes_added := nodes_added st + 1\<rparr>"
    have ih: "insert_heading r st t fs ul = Inr st'"
      by (simp add: ins(2) st'_def g1_def)
    have nodes': "nodes (graph st') = nodes g1"
      using ins(1) by (simp add: st'_def g1_def)
    have "t \<in> set (node_ids g1)" by (simp add: g1_def node_ids_add_node)
    then have mem: "t \<in> set (node_ids (graph st'))"
      by (simp add: node_ids_def nodes')
    have at: "attrs_of (graph st') t
        = Some \<lparr>level = Some (length stk), content = Some [], font_size = Some fs,
                is_underlined = Some ul\<rparr>"
      using attrs_of_add_node [of "graph st" t _ t]
      by (simp add: attrs_of_def nodes' g1_def update_attrs_all)
    have ed: "(p, t) \<in> set (edges (graph st'))"
      by (simp add: st'_def edges_add_edge)
    have cur: "current_node st' = t" "node_stack st' = stk @ [t]"
        "nodes_added st' = Suc (nodes_added st)"
      by (simp_all add: st'_def)
    have c0: "content_of (graph st') (current_node st') = Some []"
      by (simp add: cur(1) content_of_def at)
    show ?thesis
      using True ih mem at ed cur c0 by (intro exI [of _ st']) (auto simp: step lb)
  next
    case False
    obtain st' c where ac: "add_content st t = Inr st'"
        "content_of (graph st) (current_node st) = Some c"
        "content_of (graph st') (current_node st) = Some (c @ '' '' @ t)"
        "\<forall>n. n \<noteq> current_node st \<longrightarrow> attrs_of (graph st') n = attrs_of (graph st) n"
        "\<forall>n. level_of (graph st') n = level_of (graph st) n"
        "node_ids (graph st') = node_ids (graph st)"
        "edges (graph st') = edges (graph st)"
        "node_stack st' = node_stack st" "current_node st' = current_node st"
        "nodes_added st' = nodes_added st"
      using content_of_add_content [OF st(2), of t] by blast
    have c1: "content_of (graph st') (current_node st') \<noteq> Some []"
      by (simp add: ac(9) ac(3))
    show ?thesis
      using False ac c1 by (intro exI [of _ st']) (simp add: step lb)
  qed
  then show ?thesis
    using st(1) regular_font_size_find [of elements]
    unfolding t_def fs_def ul_def by blast
qed

theorem heading_qualification_witness:
  "3 < length tie_break_elements
   \<and> elem_is_bold (tie_break_elements ! 3)
   \<and> list_ex elem_is_bold (take 3 tie_break_elements)
   \<and> \<not> numbered_item (elem_text (tie_break_elements ! 3))
   \<and> spec_qualifies tie_break_elements 3
   \<and> regular_font_size tie_break_elements = 10
   \<and> (\<exists>st st'. state_before DiGraph tie_break_elements ''doc'' 3 = Inr st
         \<and> state_before DiGraph tie_break_elements ''doc'' (Suc 3) = Inr st'
         \<and> nodes_added st' = Suc (nodes_added st)
         \<and> ''Section B:'' \<in> set (node_ids (graph st'))
         \<and> current_node st' = ''Section B:''
         \<and> last (node_stack st') = ''Section B:'')"
proof -
  have h1: "3 < length tie_break_elements" by (simp add: tie_break_elements_def)
  have h2: "elem_is_bold (tie_break_elements ! 3)" by (simp add: tie_break_elements_def)
  have h3: "\<exists>e \<in> set (take 3 tie_break_elements). elem_is_bold e"
    by (simp add: tie_break_elements_def)
  have h4: "\<not> numbered_item (elem_text (tie_break_elements ! 3))"
    by (simp add: tie_break_elements_def numbered_item_def py_isdigit_def)
  have q: "spec_qualifies tie_break_elements 3"
    by (simp add: spec_qualifies_def spec_regular_font_size_def tie_break_elements_def)
  have rg: "spec_regular_font_size tie_break_elements = 10"
    by (simp add: spec_regular_font_size_def tie_break_elements_def)
  have t: "elem_text (tie_break_elements ! 3) = ''Section B:''"
    by (simp add: tie_break_elements_def)
  note T = heading_qualification [OF h1 h2 h3 h4, of "''doc''"]
  from T have r: "regular_font_size tie_break_elements = 10" using rg by simp
  from T [THEN conjunct2] q
  have "\<exists>st st'. state_before DiGraph tie_break_elements ''doc'' 3 = Inr st
         \<and> state_before DiGraph tie_break_elements ''doc'' (Suc 3) = Inr st'
         \<and> nodes_added st' = Suc (nodes_added st)
         \<and> ''Section B:'' \<in> set (node_ids (graph st'))
         \<and> current_node st' = ''Section B:''
         \<and> last (node_stack st') = ''Section B:''"
    unfolding t by (elim exE conjE) (intro exI conjI; auto)
  with h1 h2 h3 h4 q r show ?thesis by (simp add: list_ex_iff)
qed

text \<open>
  Claim C7: the iteration of the first bold element only sets \<open>first_bold_skipped\<close>: the
  graph, the stack, the current node and the count of added nodes stay as they are,
  whatever the element's font size, text and underline flag. The skip happens once: every
  later bold element that is no standalone number becomes a node or has its text appended
  to the content of the current node.
\<close>

theorem first_bold_is_skipped:
  assumes "i < length elements"
    and "elem_is_bold (elements ! i)"
    and "\<forall>e \<in> set (take i elements). \<not> elem_is_bold e"
  shows "\<exists>st. state_before DiGraph elements r i = Inr st
     \<and> state_before DiGraph elements r (Suc i) = Inr (st\<lparr>first_bold_skipped := True\<rparr>)
     \<and> (\<forall>k. i < k \<and> k < length elements \<and> elem_is_bold (elements ! k)
            \<and> \<not> numbered_item (elem_text (elements ! k)) \<longrightarrow>
          (\<exists>sk sk'. state_before DiGraph elements r k = Inr sk
             \<and> state_before DiGraph elements r (Suc k) = Inr sk'
             \<and> (nodes_added sk' = Suc (nodes_added sk)
                   \<and> current_node sk' = elem_text (elements ! k)
                 \<or> (\<exists>c. content_of (graph sk) (current_node sk) = Some c
                       \<and> content_of (graph sk') (current_node sk)
                           = Some (c @ '' '' @ elem_text (elements ! k))))))"
proof -
  obtain st where st: "state_before DiGraph elements r i = Inr st" "builder_ok r st"
      "first_bold_skipped st = (\<exists>e \<in> set (take i elements). elem_is_bold e)"
    using run_basic [of i elements r] assms(1) by auto
  have nf: "\<not> first_bold_skipped st" using st(3) assms(3) by simp
  have step: "state_before DiGraph elements r (Suc i) = Inr (st\<lparr>first_bold_skipped := True\<rparr>)"
    using assms(2) nf by (simp add: state_before_Suc [OF assms(1)] st(1) loop_body_def)
  have later: "\<exists>sk sk'. state_before DiGraph elements r k = Inr sk
             \<and> state_before DiGraph elements r (Suc k) = Inr sk'
             \<and> (nodes_added sk' = Suc (nodes_added sk)
                   \<and> current_node sk' = elem_text (elements ! k)
                 \<or> (\<exists>c. content_of (graph sk) (current_node sk) = Some c
                       \<and> content_of (graph sk') (current_node sk)
                           = Some (c @ '' '' @ elem_text (elements ! k))))"
    if k: "i < k" "k < length elements" "elem_is_bold (elements ! k)"
      "\<not> numbered_item (elem_text (elements ! k))" for k
  proof -
    obtain sk where sk: "state_before DiGraph elements r k = Inr sk" "builder_ok r sk"
        "first_bold_skipped sk = (\<exists>e \<in> set (take k elements). elem_is_bold e)"
      using run_basic [of k elements r] k(2) by auto
    have "elements ! i \<in> set (take k elements)"
      using k(1,2) by (auto simp: in_set_conv_nth intro!: exI [of _ i])
    then have fbs: "first_bold_skipped sk" using sk(3) assms(2) by blast
    have stepk: "state_before DiGraph elements r (Suc k) =
        loop_body r (regular_font_size elements) elements k (elements ! k) sk"
      by (simp add: state_before_Suc [OF k(2)] sk(1))
    show ?thesis
    proof (cases "is_heading (regular_font_size elements) elements k (elements ! k)")
      case True
      obtain p stk where ins: "insert_heading r sk (elem_text (elements ! k))
          (elem_font_size (elements ! k)) (elem_is_underlined (elements ! k)) =
            Inr (sk\<lparr>graph := add_edge (add_node (graph sk) (elem_text (elements ! k))
                          \<lparr>level = Some (length stk), content = Some '''',
                           font_size = Some (elem_font_size (elements ! k)),
                           is_underlined = Some (elem_is_underlined (elements ! k))\<rparr>) p
                          (elem_text (elements ! k)),
                       current_node := elem_text (elements ! k),
                       node_stack := stk @ [elem_text (elements ! k)],
                       nodes_added := nodes_added sk + 1\<rparr>)"
        using insert_heading_result [OF sk(2)] by blast
      show ?thesis
        using True k fbs sk(1) by (simp add: stepk loop_body_def ins)
    next
      case False
      obtain sk' c where c: "add_content sk (elem_text (elements ! k)) = Inr sk'"
          "content_of (graph sk) (current_node sk) = Some c"
          "content_of (graph sk') (current_node sk) = Some (c @ '' '' @ elem_text (elements ! k))"
        using content_of_add_content [OF sk(2)] by blast
      show ?thesis
        using False k fbs sk(1) c by (simp add: stepk loop_body_def)
    qed
  qed
  show ?thesis
    using st(1) step later by blast
qed

theorem first_bold_is_skipped_witness:
  "0 < length tie_break_elements
   \<and> elem_is_bold (tie_break_elements ! 0)
   \<and> list_all (\<lambda>e. \<not> elem_is_bold e) (take 0 tie_break_elements)
   \<and> elem_font_size (tie_break_elements ! 0) > regular_font_size tie_break_elements
   \<and> (\<exists>st. state_before DiGraph tie_break_elements ''doc'' 0 = Inr st
         \<and> state_before DiGraph tie_break_elements ''doc'' (Suc 0)
             = Inr (st\<lparr>first_bold_skipped := True\<rparr>))"
proof -
  have h1: "0 < length tie_break_elements" by (simp add: tie_break_elements_def)
  have h2: "elem_is_bold (tie_break_elements ! 0)" by (simp add: tie_break_elements_def)
  have h3: "\<forall>e \<in> set (take 0 tie_break_elements). \<not> elem_is_bold e" by simp
  have big: "elem_font_size (tie_break_elements ! 0) > regular_font_size tie_break_elements"
    by (simp add: tie_break_elements_def)
  show ?thesis
    using first_bold_is_skipped [OF h1 h2 h3, of "''doc''"] h1 h2 big by auto
qed

text \<open>
  Claim C8: the iteration of an element whose text is one or more digits, a period and then
  whitespace only (the text \<open>3.\<close> for one) leaves the graph, the stack, the current node
  and the count of added nodes as they are: the element becomes no node and no content.
  Element texts are trimmed when they reach the builder, so the text is its trimmed form.
\<close>

theorem numbered_items_are_dropped:
  assumes "i < length elements"
    and "elem_text (elements ! i) = ds @ ''.'' @ ws"
    and "ds \<noteq> []"
    and "\<forall>c \<in> set ds. py_isdigit c"
    and "\<forall>c \<in> set ws. py_isspace c"
  shows "numbered_item (elem_text (elements ! i))
     \<and> (\<exists>st st'. state_before DiGraph elements r i = Inr st
           \<and> state_before DiGraph elements r (Suc i) = Inr st'
           \<and> graph st' = graph st \<and> node_stack st' = node_stack st
           \<and> current_node st' = current_node st \<and> nodes_added st' = nodes_added st)"
proof -
  have n: "numbered_item (elem_text (elements ! i))"
    using assms(2-5) by (subst numbered_item_iff) blast
  obtain st where st: "state_before DiGraph elements r i = Inr st"
    using run_basic [of i elements r] assms(1) by auto
  have step: "state_before DiGraph elements r (Suc i) =
      loop_body r (regular_font_size elements) elements i (elements ! i) st"
    by (simp add: state_before_Suc [OF assms(1)] st)
  have "loop_body r (regular_font_size elements) elements i (elements ! i) st = Inr st
      \<or> loop_body r (regular_font_size elements) elements i (elements ! i) st
          = Inr (st\<lparr>first_bold_skipped := True\<rparr>)"
    using n by (simp add: loop_body_def)
  then show ?thesis
    using n st by (auto simp: step)
qed

theorem numbered_items_are_dropped_witness:
  "2 < length numbered_elements
   \<and> elem_text (numbered_elements ! 2) = ''3'' @ ''.'' @ []
   \<and> list_all py_isdigit ''3''
   \<and> (\<exists>st st'. state_before DiGraph numbered_elements ''doc'' 2 = Inr st
         \<and> state_before DiGraph numbered_elements ''doc'' (Suc 2) = Inr st'
         \<and> graph st' = graph st \<and> node_stack st' = node_stack st
         \<and> current_node st' = current_node st \<and> nodes_added st' = nodes_added st)"
proof -
  have h1: "2 < length numbered_elements" by (simp add: numbered_elements_def)
  have h2: "elem_text (numbered_elements ! 2) = ''3'' @ ''.'' @ []"
    by (simp add: numbered_elements_def)
  have h3: "''3'' \<noteq> []" by simp
  have h4: "\<forall>c \<in> set ''3''. py_isdigit c" by (simp add: py_isdigit_def)
  have h5: "\<forall>c \<in> set []. py_isspace c" by simp
  show ?thesis
    using numbered_items_are_dropped [OF h1 h2 h3 h4 h5, of "''doc''"] h1 h2 h4
    by (simp add: list_all_iff)
qed

section \<open>The tree while heading texts do not repeat\<close>

lemma pop_stack_take_root:
  assumes "\<forall>n \<in> set stack. \<exists>a cfs. attrs_of g n = Some a \<and> font_size a = Some cfs"
    and "stack \<noteq> []" and "hd stack = r"
  shows "\<exists>k. 1 \<le> k \<and> k \<le> length stack \<and> pop_stack r g fs ul stack = Inr (take k stack)"
  using assms
proof (induction stack rule: rev_induct)
  case Nil
  then show ?case by simp
next
  case (snoc x xs)
  from snoc.prems obtain a cfs where a: "attrs_of g x = Some a" "font_size a = Some cfs"
    by auto
  show ?case
  proof (cases "xs = []")
    case True
    with snoc.prems have "x = r" by simp
    then have "pop_stack r g fs ul (xs @ [x]) = Inr (xs @ [x])"
      unfolding pop_stack_snoc [OF a] by simp
    then show ?thesis by (intro exI [of _ "length (xs @ [x])"]) simp
  next
    case False
    with snoc.prems have "hd xs = r" by simp
    with snoc False obtain k where k: "1 \<le> k" "k \<le> length xs"
        "pop_stack r g fs ul xs = Inr (take k xs)"
      by auto
    have "pop_stack r g fs ul (xs @ [x]) = Inr (xs @ [x])
          \<or> pop_stack r g fs ul (xs @ [x]) = pop_stack r g fs ul xs"
      unfolding pop_stack_snoc [OF a] by auto
    then show ?thesis
    proof
      assume "pop_stack r g fs ul (xs @ [x]) = Inr (xs @ [x])"
      then show ?thesis by (intro exI [of _ "length (xs @ [x])"]) simp
    next
      assume "pop_stack r g fs ul (xs @ [x]) = pop_stack r g fs ul xs"
      with k show ?thesis by (intro exI [of _ k]) simp
    qed
  qed
qed

lemma select_parent_take:
  assumes "builder_ok r st" and "node_stack st \<noteq> []" and "hd (node_stack st) = r"
  shows "\<exists>k. 1 \<le> k \<and> k \<le> length (node_stack st)
           \<and> select_parent r (graph st) fs ul (node_stack st)
               = Inr (node_stack st ! (k - 1), take k (node_stack st))"
proof -
  obtain k where k: "1 \<le> k" "k \<le> length (node_stack st)"
      "pop_stack r (graph st) fs ul (node_stack st) = Inr (take k (node_stack st))"
    using pop_stack_take_root [OF builder_ok_stack_attrs [OF assms(1)] assms(2,3)] by blast
  have ne: "take k (node_stack st) \<noteq> []" using k(1) assms(2) by auto
  have "last (take k (node_stack st)) = node_stack st ! (k - 1)"
    using k(1,2) ne by (simp add: last_conv_nth min_def)
  then show ?thesis
    using k ne by (auto simp: select_parent_def)
qed

lemma level_of_Some_node: "level_of g n = Some l \<Longrightarrow> n \<in> set (node_ids g)"
  using attrs_of_None_iff [of g n] by (auto simp: level_of_def split: option.splits)

lemma tree_ok_insert:
  assumes ok: "builder_ok r st" and tr: "tree_ok r st"
    and fresh: "t \<notin> set (node_ids (graph st))"
  shows "\<exists>p stk st'. select_parent r (graph st) fs ul (node_stack st) = Inr (p, stk)
           \<and> insert_heading r st t fs ul = Inr st'
           \<and> tree_ok r st'
           \<and> node_ids (graph st') = node_ids (graph st) @ [t]
           \<and> level_of (graph st') t = Some (length stk)
           \<and> (\<forall>n. n \<noteq> t \<longrightarrow> level_of (graph st') n = level_of (graph st) n)"
proof -
  from tr have stack: "node_stack st \<noteq> []" "hd (node_stack st) = r" "distinct (node_stack st)"
    and ids: "node_ids (graph st) = r # map snd (edges (graph st))"
    and lv: "\<forall>j < length (node_stack st). level_of (graph st) (node_stack st ! j) = Some j"
    and ed: "\<forall>(p, c) \<in> set (edges (graph st)).
           \<exists>l. level_of (graph st) p = Some l \<and> level_of (graph st) c = Some (Suc l)"
    by (simp_all add: tree_ok_def)
  obtain k where k: "1 \<le> k" "k \<le> length (node_stack st)"
      "select_parent r (graph st) fs ul (node_stack st)
         = Inr (node_stack st ! (k - 1), take k (node_stack st))"
    using select_parent_take [OF ok stack(1,2)] by blast
  define p where "p = node_stack st ! (k - 1)"
  define stk where "stk = take k (node_stack st)"
  define g1 where "g1 = add_node (graph st) t
      \<lparr>level = Some (length stk), content = Some '''', font_size = Some fs, is_underlined = Some ul\<rparr>"
  define st' where "st' = st\<lparr>graph := add_edge g1 p t, current_node := t,
      node_stack := stk @ [t], nodes_added := nodes_added st + 1\<rparr>"
  have len: "length stk = k" using k(2) by (simp add: stk_def)
  have sp: "select_parent r (graph st) fs ul (node_stack st) = Inr (p, stk)"
    by (simp add: k(3) p_def stk_def)
  have stack_ids: "set (node_stack st) \<subseteq> set (node_ids (graph st))"
    using ok by (simp add: builder_ok_def)
  have p_in: "p \<in> set (node_ids (graph st))"
    using k stack_ids by (auto simp: p_def)
  have p_lv: "level_of (graph st) p = Some (k - 1)"
    using lv k by (simp add: p_def)
  have ids1: "node_ids g1 = node_ids (graph st) @ [t]"
    using fresh by (simp add: g1_def node_ids_add_node)
  have nodes2: "nodes (add_edge g1 p t) = nodes g1"
    using p_in by (intro nodes_add_edge) (simp_all add: ids1)
  have t_tgt: "t \<notin> snd ` set (edges (graph st))"
    using fresh ids by auto
  then have new_edge: "(p, t) \<notin> set (edges (graph st))" by force
  have edges': "edges (graph st') = edges (graph st) @ [(p, t)]"
    using new_edge by (simp add: st'_def edges_add_edge g1_def edges_add_node)
  have ids': "node_ids (graph st') = node_ids (graph st) @ [t]"
    by (simp add: st'_def node_ids_def nodes2 ids1 [unfolded node_ids_def])
  have lv': "level_of (graph st') n = (if n = t then Some (length stk) else level_of (graph st) n)" for n
    by (simp add: st'_def level_of_def attrs_of_def nodes2)
       (simp add: g1_def level_of_add_node [unfolded level_of_def attrs_of_def])
  have t_stack: "t \<notin> set (node_stack st)" using fresh stack_ids by blast
  have t_stk: "t \<notin> set stk" using t_stack set_take_subset [of k "node_stack st"]
    by (auto simp: stk_def)
  have stk_ne: "stk \<noteq> []" using k(1) stack(1) by (auto simp: stk_def)
  have hd_stk: "hd stk = r" using k(1) stack(1,2) by (cases "node_stack st") (auto simp: stk_def take_Cons')
  have dist_stk: "distinct stk" using stack(3) by (simp add: stk_def)
  have stk_nth: "stk ! j = node_stack st ! j" if "j < k" for j
    using that by (simp add: stk_def)
  have lv_stack: "level_of (graph st') ((stk @ [t]) ! j) = Some j" if j: "j < length (stk @ [t])" for j
  proof (cases "j < k")
    case True
    then have "(stk @ [t]) ! j = node_stack st ! j" by (simp add: nth_append len stk_nth)
    moreover have "node_stack st ! j \<noteq> t" using True k(2) t_stack by (metis nth_mem order_less_le_trans)
    moreover have "level_of (graph st) (node_stack st ! j) = Some j" using lv True k(2) by simp
    ultimately show ?thesis by (simp add: lv')
  next
    case False
    with j have "j = k" by (simp add: len)
    then show ?thesis by (simp add: nth_append len lv')
  qed
  have ed': "\<exists>l. level_of (graph st') q = Some l \<and> level_of (graph st') c = Some (Suc l)"
    if "(q, c) \<in> set (edges (graph st'))" for q c
  proof (cases "(q, c) \<in> set (edges (graph st))")
    case True
    with ed obtain l where l: "level_of (graph st) q = Some l" "level_of (graph st) c = Some (Suc l)"
      by auto
    then have "q \<noteq> t" "c \<noteq> t" using fresh level_of_Some_node by blast+
    with l show ?thesis by (simp add: lv')
  next
    case False
    with that have "q = p" "c = t" by (simp_all add: edges')
    moreover have "p \<noteq> t" using p_in fresh by blast
    ultimately show ?thesis using p_lv k(1) by (simp add: lv' len)
  qed
  have "tree_ok r st'"
    unfolding tree_ok_def
  proof (intro conjI)
    show "node_ids (graph st') = r # map snd (edges (graph st'))"
      by (simp add: ids' edges' ids)
    show "node_stack st' \<noteq> []" by (simp add: st'_def)
    show "hd (node_stack st') = r" using stk_ne hd_stk by (simp add: st'_def)
    show "distinct (node_stack st')" using dist_stk t_stk by (simp add: st'_def)
    show "\<forall>j < length (node_stack st'). level_of (graph st') (node_stack st' ! j) = Some j"
      using lv_stack by (simp add: st'_def)
    show "\<forall>(p, c) \<in> set (edges (graph st')).
           \<exists>l. level_of (graph st') p = Some l \<and> level_of (graph st') c = Some (Suc l)"
      using ed' by blast
  qed
  moreover have "insert_heading r st t fs ul = Inr st'"
    by (simp add: insert_heading_def sp st'_def g1_def)
  ultimately show ?thesis
    using sp ids' lv' by auto
qed

lemma tree_ok_same:
  assumes "tree_ok r st"
    and "node_ids (graph st') = node_ids (graph st)"
    and "edges (graph st') = edges (graph st)"
    and "node_stack st' = node_stack st"
    and "\<forall>n. level_of (graph st') n = level_of (graph st) n"
  shows "tree_ok r st'"
  using assms by (simp add: tree_ok_def)

lemma tree_ok_initial: "tree_ok r (initial_builder DiGraph r)"
  by (simp add: tree_ok_def initial_builder_def DiGraph_def node_ids_def level_of_def
      attrs_of_def add_node_def update_attrs_def no_attrs_def)

lemma insertion_depth_eq:
  assumes "state_before g es r i = Inr st"
    and "select_parent r (graph st) (elem_font_size (es ! i)) (elem_is_underlined (es ! i))
           (node_stack st) = Inr (p, stk)"
  shows "insertion_depth g es r i = Some (length stk)"
  using assms by (simp add: insertion_depth_def)

lemma headings_upto_mem:
  "j < i \<Longrightarrow> heading_at es j \<Longrightarrow> elem_text (es ! j) \<in> set (headings_upto es i)"
  by (auto simp: headings_upto_def)

lemma run_tree:
  assumes "i \<le> length es" and "distinct (r # headings_upto es i)"
  shows "\<exists>st. state_before DiGraph es r i = Inr st \<and> builder_ok r st \<and> tree_ok r st
           \<and> node_ids (graph st) = r # headings_upto es i
           \<and> (\<forall>j < i. heading_at es j \<longrightarrow>
                 level_of (graph st) (elem_text (es ! j)) = insertion_depth DiGraph es r j)"
  using assms
proof (induction i)
  case 0
  show ?case
    by (simp add: state_before_0 builder_ok_initial tree_ok_initial headings_upto_def)
       (simp add: initial_builder_def DiGraph_def node_ids_def add_node_def)
next
  case (Suc i)
  then have i: "i < length es" by simp
  have hs: "headings_upto es (Suc i) =
      headings_upto es i @ (if heading_at es i then [elem_text (es ! i)] else [])"
    by (rule headings_upto_Suc)
  from Suc.prems(2) have d: "distinct (r # headings_upto es i)"
    by (auto simp: hs split: if_splits)
  from Suc.IH [OF _ d] i obtain st where st: "state_before DiGraph es r i = Inr st"
      "builder_ok r st" "tree_ok r st" "node_ids (graph st) = r # headings_upto es i"
      "\<forall>j < i. heading_at es j \<longrightarrow>
          level_of (graph st) (elem_text (es ! j)) = insertion_depth DiGraph es r j"
    by auto
  obtain st0 where st0: "state_before DiGraph es r i = Inr st0"
      "first_bold_skipped st0 = (\<exists>e \<in> set (take i es). elem_is_bold e)"
    using run_basic [of i es r] i by auto
  have fbs: "first_bold_skipped st = (\<exists>e \<in> set (take i es). elem_is_bold e)"
    using st(1) st0 by simp
  have step: "state_before DiGraph es r (Suc i) =
      loop_body r (regular_font_size es) es i (es ! i) st"
    by (simp add: state_before_Suc [OF i] st(1))
  show ?case
  proof (cases "heading_at es i")
    case True
    then have b: "elem_is_bold (es ! i)" "first_bold_skipped st"
        "\<not> numbered_item (elem_text (es ! i))" "is_heading (regular_font_size es) es i (es ! i)"
      by (simp_all add: heading_at_def fbs)
    have lb: "loop_body r (regular_font_size es) es i (es ! i) st =
        insert_heading r st (elem_text (es ! i)) (elem_font_size (es ! i)) (elem_is_underlined (es ! i))"
      using b by (simp add: loop_body_def)
    have fresh: "elem_text (es ! i) \<notin> set (node_ids (graph st))"
      using Suc.prems(2) True by (auto simp: hs st(4))
    obtain p stk st' where ins:
        "select_parent r (graph st) (elem_font_size (es ! i)) (elem_is_underlined (es ! i))
           (node_stack st) = Inr (p, stk)"
        "insert_heading r st (elem_text (es ! i)) (elem_font_size (es ! i))
           (elem_is_underlined (es ! i)) = Inr st'"
        "tree_ok r st'"
        "node_ids (graph st') = node_ids (graph st) @ [elem_text (es ! i)]"
        "level_of (graph st') (elem_text (es ! i)) = Some (length stk)"
        "\<forall>n. n \<noteq> elem_text (es ! i) \<longrightarrow> level_of (graph st') n = level_of (graph st) n"
      using tree_ok_insert [OF st(2,3) fresh] by blast
    obtain st'' where ok': "insert_heading r st (elem_text (es ! i)) (elem_font_size (es ! i))
           (elem_is_underlined (es ! i)) = Inr st''" "builder_ok r st''"
      using insert_heading_ok [OF st(2)] by blast
    then have ok: "builder_ok r st'" using ins(2) by simp
    have depth: "insertion_depth DiGraph es r i = Some (length stk)"
      using insertion_depth_eq [OF st(1) ins(1)] .
    have lev: "level_of (graph st') (elem_text (es ! j)) = insertion_depth DiGraph es r j"
      if j: "j < Suc i" "heading_at es j" for j
    proof (cases "j = i")
      case True
      then show ?thesis using ins(5) depth by simp
    next
      case False
      with j have ji: "j < i" by simp
      then have "elem_text (es ! j) \<in> set (headings_upto es i)"
        using j(2) by (rule headings_upto_mem)
      then have "elem_text (es ! j) \<noteq> elem_text (es ! i)"
        using fresh st(4) by auto
      then show ?thesis using ins(6) st(5) ji j(2) by simp
    qed
    show ?thesis
      using True ins(2,3,4) ok lev by (simp add: step lb hs st(4))
  next
    case False
    have "\<exists>st'. loop_body r (regular_font_size es) es i (es ! i) st = Inr st'
        \<and> builder_ok r st' \<and> node_ids (graph st') = node_ids (graph st)
        \<and> edges (graph st') = edges (graph st) \<and> node_stack st' = node_stack st
        \<and> (\<forall>n. level_of (graph st') n = level_of (graph st) n)"
    proof -
      consider (skip) "elem_is_bold (es ! i) \<and> \<not> first_bold_skipped st"
        | (num) "\<not> (elem_is_bold (es ! i) \<and> \<not> first_bold_skipped st)"
            "numbered_item (elem_text (es ! i))"
        | (cont) "\<not> (elem_is_bold (es ! i) \<and> \<not> first_bold_skipped st)"
            "\<not> numbered_item (elem_text (es ! i))"
        by blast
      then show ?thesis
      proof cases
        case skip
        then show ?thesis using st(2) by (simp add: loop_body_def builder_ok_skip)
      next
        case num
        then show ?thesis using st(2) by (auto simp: loop_body_def)
      next
        case cont
        have nh: "\<not> (elem_is_bold (es ! i) \<and> is_heading (regular_font_size es) es i (es ! i))"
          using False cont i fbs by (auto simp: heading_at_def)
        have lb: "loop_body r (regular_font_size es) es i (es ! i) st =
            add_content st (elem_text (es ! i))"
          using cont nh by (auto simp: loop_body_def)
        show ?thesis
          using content_of_add_content [OF st(2), of "elem_text (es ! i)"]
          unfolding lb by blast
      qed
    qed
    then obtain st' where st': "loop_body r (regular_font_size es) es i (es ! i) st = Inr st'"
        "builder_ok r st'" "node_ids (graph st') = node_ids (graph st)"
        "edges (graph st') = edges (graph st)" "node_stack st' = node_stack st"
        "\<forall>n. level_of (graph st') n = level_of (graph st) n"
      by blast
    have tr: "tree_ok r st'" using tree_ok_same [OF st(3) st'(3,4,5,6)] .
    have lev: "level_of (graph st') (elem_text (es ! j)) = insertion_depth DiGraph es r j"
      if j: "j < Suc i" "heading_at es j" for j
    proof -
      from j False have "j < i" by (cases "j = i") auto
      then show ?thesis using st(5) st'(6) j(2) by simp
    qed
    show ?thesis
      using False st' tr lev by (simp add: step hs st(4))
  qed
qed

section \<open>The clean-up and the finished tree\<close>

lemma node_ids_cleanup: "node_ids (cleanup g) = node_ids g"
  by (simp add: node_ids_def cleanup_def case_prod_unfold comp_def)

lemma edges_cleanup: "edges (cleanup g) = edges g"
  by (simp add: cleanup_def)

lemma attrs_of_cleanup: "attrs_of (cleanup g) n = map_option clean_content (attrs_of g n)"
  by (simp add: attrs_of_def cleanup_def map_of_map)

lemma level_of_cleanup: "level_of (cleanup g) n = level_of g n"
  by (cases "attrs_of g n")
     (auto simp: level_of_def attrs_of_cleanup clean_content_def split: option.splits)


lemma in_degree_cleanup: "in_degree (cleanup g) n = in_degree g n"
  by (simp add: in_degree_def edges_cleanup)

lemma build_from_run:
  "run_loop g es r = Inr st \<Longrightarrow> build_knowledge_graph g es r = Inr (cleanup (graph st))"
  by (simp add: build_knowledge_graph_def)

lemma distinct_count:
  "distinct xs \<Longrightarrow> length (filter (\<lambda>x. x = n) xs) = (if n \<in> set xs then 1 else 0)"
  by (induction xs) auto

lemma in_degree_count:
  assumes "distinct (map snd (edges g))"
  shows "in_degree g n = (if n \<in> snd ` set (edges g) then 1 else 0)"
proof -
  have "in_degree g n = length (filter (\<lambda>x. x = n) (map snd (edges g)))"
    by (simp add: in_degree_def filter_map comp_def)
  then show ?thesis
    using distinct_count [OF assms, of n] by simp
qed

lemma finished_tree:
  assumes "distinct (r # headings elements)"
  shows "\<exists>st. run_loop DiGraph elements r = Inr st
           \<and> build_knowledge_graph DiGraph elements r = Inr (cleanup (graph st))
           \<and> builder_ok r st \<and> tree_ok r st
           \<and> node_ids (graph st) = r # headings elements
           \<and> (\<forall>j < length elements. heading_at elements j \<longrightarrow>
                 level_of (graph st) (elem_text (elements ! j))
                   = insertion_depth DiGraph elements r j)"
proof -
  obtain st where st: "state_before DiGraph elements r (length elements) = Inr st"
      "builder_ok r st" "tree_ok r st"
      "node_ids (graph st) = r # headings_upto elements (length elements)"
      "\<forall>j < length elements. heading_at elements j \<longrightarrow>
          level_of (graph st) (elem_text (elements ! j)) = insertion_depth DiGraph elements r j"
    using run_tree [of "length elements" elements r] assms by (auto simp: headings_def)
  have run: "run_loop DiGraph elements r = Inr st"
    using st(1) by (simp add: state_before_length)
  show ?thesis
    using run build_from_run [OF run] st(2-5) by (simp add: headings_def)
qed

section \<open>One root, one parent\<close>

lemma headings_tie_break: "headings tie_break_elements = [''Section A:'', ''Section B:'']"
  by (simp add: headings_def headings_upto_def heading_at_def tie_break_elements_def
      is_heading_def next_starts_with_colon_def startswith_def endswith_def
      numbered_item_def py_isdigit_def eval_nat_numeral)

text \<open>
  Claim C4 as the specification states it, for every input: exactly one node has no
  incoming edge and every other node has exactly one. It fails when a heading text
  repeats: for \<open>duplicate_elements\<close> the node \<open>A\<close> ends with two incoming edges, one from
  the root and one from \<open>B\<close>.
\<close>

theorem one_parent_counterexample:
  "build_knowledge_graph DiGraph duplicate_elements ''doc'' = Inr duplicate_tree
   \<and> ''A'' \<in> set (node_ids duplicate_tree) \<and> ''A'' \<noteq> ''doc''
   \<and> in_degree duplicate_tree ''A'' = 2"
  by (simp add: duplicate_elements_def duplicate_tree_def builder_defs in_degree_def
      node_ids_def)

text \<open>
  Claim C4, amended: for every element sequence whose heading texts are pairwise distinct
  and differ from the root's identifier, the builder returns a graph whose nodes are the
  root and the headings, whose edges are distinct and join nodes, in which the root has
  no incoming edge and every other node has exactly one.
\<close>

theorem one_root_one_parent:
  assumes "distinct (r # headings elements)"
  shows "\<exists>g. build_knowledge_graph DiGraph elements r = Inr g
           \<and> node_ids g = r # headings elements
           \<and> distinct (edges g)
           \<and> (\<forall>e \<in> set (edges g). fst e \<in> set (node_ids g) \<and> snd e \<in> set (node_ids g))
           \<and> in_degree g r = 0
           \<and> (\<forall>n \<in> set (node_ids g). n \<noteq> r \<longrightarrow> in_degree g n = 1)"
proof -
  obtain st where st: "build_knowledge_graph DiGraph elements r = Inr (cleanup (graph st))"
      "tree_ok r st" "node_ids (graph st) = r # headings elements"
    using finished_tree [OF assms] by blast
  define g where "g = cleanup (graph st)"
  have ids: "node_ids g = r # headings elements"
    by (simp add: g_def node_ids_cleanup st(3))
  have tgt: "map snd (edges g) = headings elements"
    using st(2,3) by (simp add: g_def edges_cleanup tree_ok_def)
  have d: "distinct (map snd (edges g))" using assms tgt by simp
  then have de: "distinct (edges g)" by (rule distinct_map [THEN iffD1, THEN conjunct1])
  have ends: "fst e \<in> set (node_ids g) \<and> snd e \<in> set (node_ids g)" if e: "e \<in> set (edges g)" for e
  proof -
    obtain p c where pc: "e = (p, c)" by (cases e)
    with e st(2) obtain l where "level_of (graph st) p = Some l" "level_of (graph st) c = Some (Suc l)"
      by (auto simp: tree_ok_def g_def edges_cleanup)
    then have "p \<in> set (node_ids (graph st))" "c \<in> set (node_ids (graph st))"
      by (auto dest: level_of_Some_node)
    then show ?thesis by (simp add: pc g_def node_ids_cleanup)
  qed
  have root: "in_degree g r = 0"
    using assms tgt by (simp add: in_degree_count [OF d]) (metis list.set_map)
  have other: "in_degree g n = 1" if "n \<in> set (node_ids g)" "n \<noteq> r" for n
  proof -
    from that ids have "n \<in> set (map snd (edges g))" by (simp add: tgt)
    then show ?thesis by (simp add: in_degree_count [OF d])
  qed
  show ?thesis
    using st(1) ids de ends root other unfolding g_def by blast
qed

theorem one_root_one_parent_witness:
  "distinct (''doc'' # headings tie_break_elements)
   \<and> (\<exists>g. build_knowledge_graph DiGraph tie_break_elements ''doc'' = Inr g
         \<and> node_ids g = [''doc'', ''Section A:'', ''Section B:'']
         \<and> in_degree g ''doc'' = 0
         \<and> in_degree g ''Section A:'' = 1
         \<and> in_degree g ''Section B:'' = 1)"
proof -
  have d: "distinct (''doc'' # headings tie_break_elements)"
    by (simp add: headings_tie_break)
  show ?thesis
    using one_root_one_parent [OF d] d by (auto simp: headings_tie_break)
qed

section \<open>Levels and stack depth\<close>

text \<open>
  Claim C5 as the specification states it, for every input: the level of a node is the
  stack depth at its insertion, the root has level 0, and the level grows by one along
  every edge. It fails when a heading text repeats: for \<open>duplicate_elements\<close> the edge from
  the root (level 0) to \<open>A\<close> ends at level 3, the level of the second insertion of \<open>A\<close>.
\<close>

theorem level_step_counterexample:
  "build_knowledge_graph DiGraph duplicate_elements ''doc'' = Inr duplicate_tree
   \<and> (''doc'', ''A'') \<in> set (edges duplicate_tree)
   \<and> level_of duplicate_tree ''doc'' = Some 0
   \<and> level_of duplicate_tree ''A'' = Some 3"
  by (simp add: duplicate_elements_def duplicate_tree_def builder_defs level_of_def
      attrs_of_def)

text \<open>
  Claim C5, amended: for every element sequence whose heading texts are pairwise distinct
  and differ from the root's identifier, the nodes of the finished graph are the root and
  the headings, the root has level 0, the level of every heading is the depth of the stack
  at line 214 of the iteration that inserted it, and along every edge the level of the
  child is the level of the parent plus one.
\<close>

theorem levels_follow_stack_depth:
  assumes "distinct (r # headings elements)"
  shows "\<exists>g. build_knowledge_graph DiGraph elements r = Inr g
           \<and> node_ids g = r # headings elements
           \<and> level_of g r = Some 0
           \<and> (\<forall>i. heading_at elements i \<longrightarrow>
                 (\<exists>d. insertion_depth DiGraph elements r i = Some d
                    \<and> level_of g (elem_text (elements ! i)) = Some d))
           \<and> (\<forall>(p, c) \<in> set (edges g).
                 \<exists>l. level_of g p = Some l \<and> level_of g c = Some (Suc l))"
proof -
  obtain st where st: "build_knowledge_graph DiGraph elements r = Inr (cleanup (graph st))"
      "builder_ok r st" "tree_ok r st" "node_ids (graph st) = r # headings elements"
      "\<forall>j < length elements. heading_at elements j \<longrightarrow>
          level_of (graph st) (elem_text (elements ! j)) = insertion_depth DiGraph elements r j"
    using finished_tree [OF assms] by blast
  define g where "g = cleanup (graph st)"
  have ids: "node_ids g = r # headings elements"
    by (simp add: g_def node_ids_cleanup st(4))
  have "level_of (graph st) (node_stack st ! 0) = Some 0"
    using st(3) by (auto simp: tree_ok_def)
  moreover have "node_stack st ! 0 = r"
    using st(3) by (cases "node_stack st") (auto simp: tree_ok_def)
  ultimately have root: "level_of g r = Some 0"
    by (simp add: g_def level_of_cleanup)
  have lev: "\<exists>d. insertion_depth DiGraph elements r i = Some d
                    \<and> level_of g (elem_text (elements ! i)) = Some d"
    if h: "heading_at elements i" for i
  proof -
    from h have i: "i < length elements" by (simp add: heading_at_def)
    have eq: "level_of (graph st) (elem_text (elements ! i)) = insertion_depth DiGraph elements r i"
      using st(5) i h by simp
    have "elem_text (elements ! i) \<in> set (headings elements)"
      unfolding headings_def using i h by (rule headings_upto_mem)
    then have "elem_text (elements ! i) \<in> set (node_ids (graph st))" by (simp add: st(4))
    then obtain a where a: "attrs_of (graph st) (elem_text (elements ! i)) = Some a"
      using attrs_of_Some_ex by blast
    with st(2) have "attrs_complete a" by (auto simp: builder_ok_def)
    with a obtain d where d: "level_of (graph st) (elem_text (elements ! i)) = Some d"
      by (auto simp: level_of_def attrs_complete_def)
    then have "insertion_depth DiGraph elements r i = Some d" using eq by simp
    with d show ?thesis by (simp add: g_def level_of_cleanup)
  qed
  have ed: "\<forall>(p, c) \<in> set (edges g). \<exists>l. level_of g p = Some l \<and> level_of g c = Some (Suc l)"
    using st(3) by (simp add: tree_ok_def g_def edges_cleanup level_of_cleanup)
  show ?thesis
    using st(1) ids root lev ed unfolding g_def by blast
qed

theorem levels_follow_stack_depth_witness:
  "distinct (''doc'' # headings tie_break_elements)
   \<and> heading_at tie_break_elements 3
   \<and> (\<exists>g d. build_knowledge_graph DiGraph tie_break_elements ''doc'' = Inr g
         \<and> level_of g ''doc'' = Some 0
         \<and> insertion_depth DiGraph tie_break_elements ''doc'' 3 = Some d
         \<and> level_of g ''Section B:'' = Some d)"
proof -
  have d: "distinct (''doc'' # headings tie_break_elements)"
    by (simp add: headings_tie_break)
  have h: "heading_at tie_break_elements 3"
    by (simp add: heading_at_def tie_break_elements_def is_heading_def numbered_item_def
        py_isdigit_def)
  have t: "elem_text (tie_break_elements ! 3) = ''Section B:''"
    by (simp add: tie_break_elements_def)
  show ?thesis
    using levels_follow_stack_depth [OF d] d h t by fastforce
qed

section \<open>Content\<close>




section \<open>A heading text that repeats\<close>

text \<open>
  Claim C10: when the text of a qualifying heading is already the identifier of a node, its
  insertion adds no node: that node's level, font size and underline flag become those of
  the new heading (the level is the depth of the stack the parent selection leaves), its
  content becomes the empty string, and every other node keeps its attributes. The edge
  from the selected parent is added unless it exists, so the node gains one incoming edge
  exactly when the selected parent was no parent of it before.
\<close>

theorem repeated_heading_overwrites:
  assumes "heading_at elements i"
    and "state_before DiGraph elements r i = Inr st"
    and "elem_text (elements ! i) \<in> set (node_ids (graph st))"
  shows "\<exists>p stk st'.
           select_parent r (graph st) (elem_font_size (elements ! i))
             (elem_is_underlined (elements ! i)) (node_stack st) = Inr (p, stk)
         \<and> state_before DiGraph elements r (Suc i) = Inr st'
         \<and> node_ids (graph st') = node_ids (graph st)
         \<and> attrs_of (graph st') (elem_text (elements ! i))
             = Some \<lparr>level = Some (length stk), content = Some '''',
                     font_size = Some (elem_font_size (elements ! i)),
                     is_underlined = Some (elem_is_underlined (elements ! i))\<rparr>
         \<and> (\<forall>n. n \<noteq> elem_text (elements ! i) \<longrightarrow>
               attrs_of (graph st') n = attrs_of (graph st) n)
         \<and> edges (graph st')
             = (if (p, elem_text (elements ! i)) \<in> set (edges (graph st)) then edges (graph st)
                else edges (graph st) @ [(p, elem_text (elements ! i))])
         \<and> in_degree (graph st') (elem_text (elements ! i))
             = (if (p, elem_text (elements ! i)) \<in> set (edges (graph st))
                then in_degree (graph st) (elem_text (elements ! i))
                else Suc (in_degree (graph st) (elem_text (elements ! i))))"
proof -
  define t where "t = elem_text (elements ! i)"
  define fs where "fs = elem_font_size (elements ! i)"
  define ul where "ul = elem_is_underlined (elements ! i)"
  from assms(1) have i: "i < length elements" by (simp add: heading_at_def)
  obtain st0 where st0: "state_before DiGraph elements r i = Inr st0" "builder_ok r st0"
      "first_bold_skipped st0 = (\<exists>e \<in> set (take i elements). elem_is_bold e)"
    using run_basic [of i elements r] i by auto
  with assms(2) have ok: "builder_ok r st"
    and fbs: "first_bold_skipped st = (\<exists>e \<in> set (take i elements). elem_is_bold e)"
    by simp_all
  have lb: "loop_body r (regular_font_size elements) elements i (elements ! i) st =
      insert_heading r st t fs ul"
    using assms(1) fbs by (simp add: loop_body_def heading_at_def t_def fs_def ul_def)
  have step: "state_before DiGraph elements r (Suc i) = insert_heading r st t fs ul"
    by (simp add: state_before_Suc [OF i] assms(2) lb)
  obtain p stk where ins:
      "select_parent r (graph st) fs ul (node_stack st) = Inr (p, stk)"
      "nodes (add_edge (add_node (graph st) t
                 \<lparr>level = Some (length stk), content = Some '''', font_size = Some fs,
                  is_underlined = Some ul\<rparr>) p t)
               = nodes (add_node (graph st) t
                 \<lparr>level = Some (length stk), content = Some '''', font_size = Some fs,
                  is_underlined = Some ul\<rparr>)"
      "insert_heading r st t fs ul =
               Inr (st\<lparr>graph := add_edge (add_node (graph st) t
                          \<lparr>level = Some (length stk), content = Some '''', font_size = Some fs,
                           is_underlined = Some ul\<rparr>) p t,
                       current_node := t, node_stack := stk @ [t],
                       nodes_added := nodes_added st + 1\<rparr>)"
    using insert_heading_result [OF ok] by blast
  define g1 where "g1 = add_node (graph st) t
      \<lparr>level = Some (length stk), content = Some '''', font_size = Some fs, is_underlined = Some ul\<rparr>"
  define st' where "st' = st\<lparr>graph := add_edge g1 p t, current_node := t,
      node_stack := stk @ [t], nodes_added := nodes_added st + 1\<rparr>"
  have st': "state_before DiGraph elements r (Suc i) = Inr st'"
    by (simp add: step ins(3) st'_def g1_def)
  have nodes': "nodes (graph st') = nodes g1"
    using ins(2) by (simp add: st'_def g1_def)
  have ids: "node_ids (graph st') = node_ids (graph st)"
    using assms(3) by (simp add: node_ids_def nodes')
       (simp add: g1_def node_ids_add_node [unfolded node_ids_def] t_def)
  have at: "attrs_of (graph st') n =
      (if n = t then Some \<lparr>level = Some (length stk), content = Some '''', font_size = Some fs,
                  is_underlined = Some ul\<rparr> else attrs_of (graph st) n)" for n
    using attrs_of_add_node [of "graph st" t _ n]
    by (simp add: attrs_of_def nodes' g1_def update_attrs_all)
  have ed: "edges (graph st') =
      (if (p, t) \<in> set (edges (graph st)) then edges (graph st) else edges (graph st) @ [(p, t)])"
    by (simp add: st'_def edges_add_edge g1_def edges_add_node)
  have deg: "in_degree (graph st') t =
      (if (p, t) \<in> set (edges (graph st)) then in_degree (graph st) t
       else Suc (in_degree (graph st) t))"
    by (simp add: in_degree_def ed)
  show ?thesis
    using ins(1) st' ids at ed deg unfolding t_def fs_def ul_def by auto
qed

theorem repeated_heading_overwrites_witness:
  "heading_at duplicate_elements 4
   \<and> elem_text (duplicate_elements ! 4) = ''A''
   \<and> (\<exists>st st'. state_before DiGraph duplicate_elements ''doc'' 4 = Inr st
         \<and> state_before DiGraph duplicate_elements ''doc'' (Suc 4) = Inr st'
         \<and> ''A'' \<in> set (node_ids (graph st))
         \<and> attrs_of (graph st) ''A''
             = Some \<lparr>level = Some 1, content = Some '' alpha'', font_size = Some 20,
                     is_underlined = Some False\<rparr>
         \<and> edges (graph st) = [(''doc'', ''A''), (''A'', ''B'')]
         \<and> attrs_of (graph st') ''A''
             = Some \<lparr>level = Some 3, content = Some [], font_size = Some 12,
                     is_underlined = Some False\<rparr>
         \<and> edges (graph st') = [(''doc'', ''A''), (''A'', ''B''), (''B'', ''A'')]
         \<and> in_degree (graph st') ''A'' = Suc (in_degree (graph st) ''A''))"
proof -
  let ?st = "\<lparr>graph =
      \<lparr>nodes =
         [(''doc'', \<lparr>level = Some 0, content = Some [], font_size = Some 100,
                     is_underlined = Some False\<rparr>),
          (''A'', \<lparr>level = Some 1, content = Some '' alpha'', font_size = Some 20,
                   is_underlined = Some False\<rparr>),
          (''B'', \<lparr>level = Some 2, content = Some [], font_size = Some 15,
                   is_underlined = Some False\<rparr>)],
       edges = [(''doc'', ''A''), (''A'', ''B'')]\<rparr>,
      current_node = ''B'', node_stack = [''doc'', ''A'', ''B''],
      first_bold_skipped = True, nodes_added = 2\<rparr>"
  have h: "heading_at duplicate_elements 4"
    by (simp add: heading_at_def duplicate_elements_def is_heading_def numbered_item_def
        py_isdigit_def)
  have s: "state_before DiGraph duplicate_elements ''doc'' 4 = Inr ?st"
    by (simp add: state_before_def duplicate_elements_def builder_defs eval_nat_numeral)
  have e: "elem_text (duplicate_elements ! 4) = ''A''"
      "elem_font_size (duplicate_elements ! 4) = 12"
      "elem_is_underlined (duplicate_elements ! 4) = False"
    by (simp_all add: duplicate_elements_def)
  have m: "elem_text (duplicate_elements ! 4) \<in> set (node_ids (graph ?st))"
    by (simp add: e node_ids_def)
  have sp: "select_parent ''doc'' (graph ?st) 12 False (node_stack ?st)
      = Inr (''B'', [''doc'', ''A'', ''B''])"
    by (simp add: select_parent_def pop_stack.simps)
  show ?thesis
    using repeated_heading_overwrites [OF h s m] h s e sp
    by (auto simp: node_ids_def attrs_of_def in_degree_def)
qed

end
